theory Spec2Isabelle
  imports Main "HOL-Library.AList"
begin

section \<open>Graph maps (graph\_map.py)\<close>

text \<open>
  The class \<open>GraphMap\<close> of \<open>graph_map.py\<close>: a map between two graphs with inverses,
  stored as a word morphism on the letters of the domain. The graph and alphabet classes
  it calls are not part of the file; the operations it uses are modelled below from their
  description (an alphabet is its list of positive letters and the inverse of a letter, a
  graph is an alphabet, a list of vertices and the initial vertex of every letter).
\<close>

text \<open>The exceptions of the Python code that the model can reach (\<open>KeyError\<close>: a letter
  or vertex that is not a key; \<open>IndexError\<close>: the first letter of an empty word;
  \<open>NameError\<close>: a name that is bound nowhere; \<open>TypeError\<close>: a word morphism applied to
  something that is not a word), \<open>NotInvertible\<close>, the failure the automorphism inversion
  reports, and the four errors of the specification's taxonomy, which no line of
  \<open>graph_map.py\<close> raises.\<close>

datatype error = KeyError | IndexError | NameError | TypeError
  | NotInvertible
  | MalformedEdgeMapError | DisconnectedImageError
  | NotAHomotopyEquivalenceError | InvariantViolationError

subsection \<open>Alphabets and graphs with inverses\<close>

text \<open>Modelled from the spec: an alphabet with inverses is its list of positive letters and
  the involution that gives the inverse of a letter (\<open>inverse_of\<close>).\<close>

record 'l alphabet =
  positive_letters :: "'l list"
  inverse_of :: "'l \<Rightarrow> 'l"

text \<open>Iterating over an alphabet (\<open>for a in A\<close>) gives the positive letters, then their
  inverses.\<close>

definition letters :: "'l alphabet \<Rightarrow> 'l list" where
  "letters A = positive_letters A @ map (inverse_of A) (positive_letters A)"

text \<open>The method \<open>inverse_letter\<close> of the alphabet is a lookup in the dict of its
  inverses: it raises \<open>KeyError\<close> for a letter that the alphabet does not have. Where the
  code calls it on a letter that it has just taken from the alphabet itself (\<open>for a in A1\<close>
  at line 246, \<open>for a in A1.positive_letters()\<close> at lines 168-184), the lookup succeeds and
  the model writes \<open>inverse_of\<close>.\<close>

definition inverse_letter :: "'l alphabet \<Rightarrow> 'l \<Rightarrow> error + 'l" where
  "inverse_letter A a = (if a \<in> set (letters A) then Inr (inverse_of A a) else Inl KeyError)"

record ('v, 'l) graph =
  alphabet :: "'l alphabet"
  vertices :: "'v list"
  initial_vertex :: "'l \<Rightarrow> 'v"

definition terminal_vertex :: "('v, 'l) graph \<Rightarrow> 'l \<Rightarrow> 'v" where
  "terminal_vertex G a = initial_vertex G (inverse_of (alphabet G) a)"

definition has_vertex :: "('v, 'l) graph \<Rightarrow> 'v \<Rightarrow> bool" where
  "has_vertex G v = (v \<in> set (vertices G))"

text \<open>Modelled from the spec: \<open>reverse_path\<close> maps a path \<open>[a1,...,an]\<close> of the graph
  to \<open>[inv an,...,inv a1]\<close>. (The spec describes it on paths of the graph, whose letters
  are letters of its alphabet.)\<close>

definition reverse_path :: "('v, 'l) graph \<Rightarrow> 'l list \<Rightarrow> 'l list" where
  "reverse_path G w = rev (map (inverse_of (alphabet G)) w)"

text \<open>Modelled from the spec: a path is reduced if no letter is followed by its inverse;
  \<open>reduce_path\<close> cancels such pairs until none is left.\<close>

fun is_reduced :: "('l \<Rightarrow> 'l) \<Rightarrow> 'l list \<Rightarrow> bool" where
  "is_reduced i [] = True"
| "is_reduced i [a] = True"
| "is_reduced i (a # b # w) = (b \<noteq> i a \<and> is_reduced i (b # w))"

definition reduce_cons :: "('l \<Rightarrow> 'l) \<Rightarrow> 'l \<Rightarrow> 'l list \<Rightarrow> 'l list" where
  "reduce_cons i a w = (case w of [] \<Rightarrow> [a] | b # u \<Rightarrow> if b = i a then u else a # w)"

definition reduce_path :: "('v, 'l) graph \<Rightarrow> 'l list \<Rightarrow> 'l list" where
  "reduce_path G w = foldr (reduce_cons (inverse_of (alphabet G))) w []"

text \<open>Modelled from the spec: the length of the longest common prefix of two paths.\<close>

fun common_prefix_length :: "'l list \<Rightarrow> 'l list \<Rightarrow> nat" where
  "common_prefix_length (a # u) (b # w) = (if a = b then Suc (common_prefix_length u w) else 0)"
| "common_prefix_length u w = 0"

subsection \<open>The class GraphMap\<close>

text \<open>A Python dict that is iterated over is an association list (\<open>AList.update\<close>
  assigns to a key); the stored word morphism, which is only looked up, is a map.\<close>

type_synonym 'l word_dict = "('l \<times> 'l list) list"

record ('v, 'l) graph_map =
  domain :: "('v, 'l) graph"
  codomain :: "('v, 'l) graph"
  edge_map :: "'l \<rightharpoonup> 'l list"
  vertex_map :: "('v \<rightharpoonup> 'v) option"

text \<open>Modelled from the spec: \<open>WordMorphism(d)\<close>, the word morphism of a dict (the class
  \<open>WordMorphism\<close> of Sage is not part of the file). The letters of its domain alphabet are
  the keys of the dict in increasing order, each with its image; letters are ordered, as
  Python's strings are.\<close>

definition WordMorphism :: "'l::linorder word_dict \<Rightarrow> 'l word_dict" where
  "WordMorphism d = map (\<lambda>a. (a, the (map_of d a))) (sort (remdups (map fst d)))"

text \<open>\<open>set_edge_map\<close>, lines 81-100: for every letter \<open>a\<close> of the domain alphabet of the
  given morphism, in the order of that alphabet, store the reduced image at \<open>a\<close> and its
  reverse at the inverse letter, which is looked up in the alphabet of the domain and
  raises \<open>KeyError\<close> when \<open>a\<close> is not one of its letters; then forget the vertex map.
  The dict \<open>m\<close> is local: when the loop raises, the graph map is left as it was.\<close>

fun set_edge_map_loop ::
  "('v, 'l) graph_map \<Rightarrow> 'l word_dict \<Rightarrow> ('l \<rightharpoonup> 'l list) \<Rightarrow> error + ('l \<rightharpoonup> 'l list)" where
  "set_edge_map_loop gm [] m = Inr m"
| "set_edge_map_loop gm (aw # tmp_map) m =
     (let a = fst aw;
          r = reduce_path (codomain gm) (snd aw);
          m1 = m(a \<mapsto> r)
      in case inverse_letter (alphabet (domain gm)) a of
           Inl err \<Rightarrow> Inl err
         | Inr aa \<Rightarrow> set_edge_map_loop gm tmp_map (m1(aa \<mapsto> reverse_path (codomain gm) r)))"

definition set_edge_map ::
  "('v, 'l::linorder) graph_map \<Rightarrow> 'l word_dict \<Rightarrow> error + ('v, 'l) graph_map" where
  "set_edge_map gm em =
     (case set_edge_map_loop gm (WordMorphism em) Map.empty of
        Inl err \<Rightarrow> Inl err
      | Inr m \<Rightarrow> Inr (gm\<lparr>edge_map := m, vertex_map := None\<rparr>))"

text \<open>The constructor, lines 21-25.\<close>

definition GraphMap ::
  "('v, 'l::linorder) graph \<Rightarrow> ('v, 'l) graph \<Rightarrow> 'l word_dict \<Rightarrow> ('v \<rightharpoonup> 'v) option
     \<Rightarrow> error + ('v, 'l) graph_map" where
  "GraphMap G1 G2 em vm =
     (case set_edge_map \<lparr>domain = G1, codomain = G2, edge_map = Map.empty, vertex_map = None\<rparr> em of
        Inl err \<Rightarrow> Inl err
      | Inr gm \<Rightarrow> Inr (gm\<lparr>vertex_map := vm\<rparr>))"

text \<open>\<open>image\<close>, lines 129-139, with \<open>iter = 1\<close>: the lookup in the stored morphism
  (\<open>image_letter\<close> here: \<open>image\<close> is the image of a set).\<close>

definition image_letter :: "('v, 'l) graph_map \<Rightarrow> 'l \<Rightarrow> error + 'l list" where
  "image_letter gm a = (case edge_map gm a of None \<Rightarrow> Inl KeyError | Some w \<Rightarrow> Inr w)"

text \<open>A word morphism applied to a word: the concatenation of the images of its letters.\<close>

fun apply_morphism :: "('l \<rightharpoonup> 'l list) \<Rightarrow> 'l list \<Rightarrow> error + 'l list" where
  "apply_morphism m [] = Inr []"
| "apply_morphism m (a # w) =
     (case m a of None \<Rightarrow> Inl KeyError
      | Some u \<Rightarrow> (case apply_morphism m w of Inl e \<Rightarrow> Inl e | Inr r \<Rightarrow> Inr (u @ r)))"

text \<open>\<open>update_vertex_map\<close>, lines 111-121.\<close>

fun vertex_map_loop ::
  "('v, 'l) graph_map \<Rightarrow> 'l list \<Rightarrow> ('v \<rightharpoonup> 'v) \<Rightarrow> error + ('v \<rightharpoonup> 'v)" where
  "vertex_map_loop gm [] vm = Inr vm"
| "vertex_map_loop gm (e # es) vm =
     (case image_letter gm e of Inl err \<Rightarrow> Inl err
      | Inr p \<Rightarrow>
          if length p > 0
          then vertex_map_loop gm es
                 ((vm(initial_vertex (domain gm) e \<mapsto> initial_vertex (codomain gm) (hd p)))
                     (terminal_vertex (domain gm) e \<mapsto> terminal_vertex (codomain gm) (last p)))
          else vertex_map_loop gm es vm)"

definition update_vertex_map :: "('v, 'l) graph_map \<Rightarrow> error + ('v, 'l) graph_map" where
  "update_vertex_map gm =
     (case vertex_map_loop gm (positive_letters (alphabet (domain gm))) Map.empty of
        Inl err \<Rightarrow> Inl err
      | Inr vm \<Rightarrow> Inr (gm\<lparr>vertex_map := Some vm\<rparr>))"

text \<open>\<open>__call__\<close>, lines 27-43. The argument is a vertex or an edge path; a vertex that
  the domain does not have is handed to the word morphism, which rejects it. The call
  returns its value and the map with its vertex map filled in.\<close>

datatype ('v, 'l) argument = Vertex 'v | Path "'l list"

definition call_path :: "('v, 'l) graph_map \<Rightarrow> 'l list \<Rightarrow> error + 'l list" where
  "call_path gm w =
     (case apply_morphism (edge_map gm) w of Inl err \<Rightarrow> Inl err
      | Inr u \<Rightarrow> Inr (reduce_path (codomain gm) u))"

definition call_vertex :: "('v, 'l) graph_map \<Rightarrow> 'v \<Rightarrow> error + ('v \<times> ('v, 'l) graph_map)" where
  "call_vertex gm v =
     (case (case vertex_map gm of None \<Rightarrow> update_vertex_map gm | Some vm \<Rightarrow> Inr gm) of
        Inl err \<Rightarrow> Inl err
      | Inr gm1 \<Rightarrow>
          (case Option.bind (vertex_map gm1) (\<lambda>vm. vm v) of
             None \<Rightarrow> Inl KeyError
           | Some x \<Rightarrow> Inr (x, gm1)))"

fun call ::
  "('v, 'l) graph_map \<Rightarrow> ('v, 'l) argument \<Rightarrow> error + (('v, 'l) argument \<times> ('v, 'l) graph_map)" where
  "call gm (Vertex v) =
     (if has_vertex (domain gm) v
      then (case call_vertex gm v of Inl err \<Rightarrow> Inl err | Inr (x, gm1) \<Rightarrow> Inr (Vertex x, gm1))
      else Inl TypeError)"
| "call gm (Path w) =
     (case call_path gm w of Inl err \<Rightarrow> Inl err | Inr u \<Rightarrow> Inr (Path u, gm))"

text \<open>Building a dict from the images of a list of letters; a letter with no image raises.\<close>

fun image_dict :: "('l \<Rightarrow> error + 'l list) \<Rightarrow> 'l list \<Rightarrow> 'l word_dict \<Rightarrow> error + 'l word_dict" where
  "image_dict f [] d = Inr d"
| "image_dict f (a # as) d =
     (case f a of Inl err \<Rightarrow> Inl err | Inr w \<Rightarrow> image_dict f as (AList.update a w d))"

text \<open>\<open>__mul__\<close>, lines 45-53: \<open>self * other\<close>.\<close>

definition mul ::
  "('v, 'l::linorder) graph_map \<Rightarrow> ('v, 'l) graph_map \<Rightarrow> error + ('v, 'l) graph_map" where
  "mul self other =
     (case image_dict
             (\<lambda>a. case image_letter other a of Inl err \<Rightarrow> Inl err | Inr w \<Rightarrow> call_path self w)
             (positive_letters (alphabet (domain other))) [] of
        Inl err \<Rightarrow> Inl err
      | Inr result_map \<Rightarrow> GraphMap (domain other) (codomain self) result_map None)"

text \<open>\<open>compose_edge_map\<close>, lines 102-109.\<close>

definition compose_edge_map ::
  "('v, 'l::linorder) graph_map \<Rightarrow> ('l \<rightharpoonup> 'l list) \<Rightarrow> error + ('v, 'l) graph_map" where
  "compose_edge_map gm edge_morph =
     (case image_dict
             (\<lambda>a. case image_letter gm a of Inl err \<Rightarrow> Inl err | Inr w \<Rightarrow> apply_morphism edge_morph w)
             (positive_letters (alphabet (domain gm))) [] of
        Inl err \<Rightarrow> Inl err
      | Inr em \<Rightarrow> set_edge_map gm em)"

text \<open>\<open>tighten\<close>, lines 208-256. The first inner loop computes, for every vertex,
  the common prefix of the nonempty images of the letters that leave it.\<close>

fun tighten_prefix ::
  "('v, 'l) graph \<Rightarrow> 'l word_dict \<Rightarrow> 'l list \<Rightarrow> ('v \<rightharpoonup> 'l list) \<Rightarrow> error + ('v \<rightharpoonup> 'l list)" where
  "tighten_prefix G1 em [] prefix = Inr prefix"
| "tighten_prefix G1 em (a # as) prefix =
     (case map_of em a of None \<Rightarrow> Inl KeyError
      | Some u \<Rightarrow>
          (let v = initial_vertex G1 a in
           if length u > 0
           then (case prefix v of
                   Some pv \<Rightarrow>
                     if length pv > 0
                     then tighten_prefix G1 em as
                            (prefix(v \<mapsto> take (common_prefix_length u pv) pv))
                     else tighten_prefix G1 em as prefix
                 | None \<Rightarrow> tighten_prefix G1 em as (prefix(v \<mapsto> u)))
           else tighten_prefix G1 em as prefix))"

text \<open>The second inner loop strips the prefix of its initial vertex from the image of
  every letter, in place; the state is the dict and the flag \<open>done\<close>, and
  \<open>tighten_strip_letter\<close> is the body of the loop for the letter \<open>a\<close>. The graph \<open>G2\<close>
  whose \<open>reverse_path\<close> it calls is \<open>self.domain()\<close> (line 223).\<close>

definition tighten_strip_letter ::
  "('v, 'l) graph \<Rightarrow> ('v \<rightharpoonup> 'l list) \<Rightarrow> 'l \<Rightarrow> 'l word_dict \<times> bool
     \<Rightarrow> error + ('l word_dict \<times> bool)" where
  "tighten_strip_letter G1 prefix a s =
     (case prefix (initial_vertex G1 a) of
        None \<Rightarrow> Inr s
      | Some pv \<Rightarrow>
          if length pv > 0
          then (let aa = inverse_of (alphabet G1) a in
                case map_of (fst s) a of None \<Rightarrow> Inl KeyError
                | Some u \<Rightarrow>
                    if length u > 0
                    then (let em1 = AList.update a (drop (length pv) u) (fst s) in
                          case map_of em1 aa of None \<Rightarrow> Inl KeyError
                          | Some w \<Rightarrow>
                              Inr (AList.update aa (take (length w - length pv) w) em1, False))
                    else Inr (AList.update aa pv (AList.update a (reverse_path G1 pv) (fst s)),
                              False))
          else Inr s)"

fun tighten_strip ::
  "('v, 'l) graph \<Rightarrow> ('v \<rightharpoonup> 'l list) \<Rightarrow> 'l list \<Rightarrow> 'l word_dict \<times> bool
     \<Rightarrow> error + ('l word_dict \<times> bool)" where
  "tighten_strip G1 prefix [] s = Inr s"
| "tighten_strip G1 prefix (a # as) s =
     (case tighten_strip_letter G1 prefix a s of Inl err \<Rightarrow> Inl err
      | Inr s1 \<Rightarrow> tighten_strip G1 prefix as s1)"

text \<open>One turn of the \<open>while\<close> loop, and the loop: \<open>None\<close> when it never ends.\<close>

definition tighten_iteration ::
  "('v, 'l) graph \<Rightarrow> 'l list \<Rightarrow> 'l word_dict \<Rightarrow> error + ('l word_dict \<times> bool)" where
  "tighten_iteration G1 A1 em =
     (case tighten_prefix G1 em A1 Map.empty of Inl err \<Rightarrow> Inl err
      | Inr prefix \<Rightarrow> tighten_strip G1 prefix A1 (em, True))"

partial_function (option) tighten_loop ::
  "('v, 'l) graph \<Rightarrow> 'l list \<Rightarrow> 'l word_dict \<Rightarrow> (error + 'l word_dict) option" where
  "tighten_loop G1 A1 em =
     (case tighten_iteration G1 A1 em of Inl err \<Rightarrow> Some (Inl err)
      | Inr s \<Rightarrow> if snd s then Some (Inr (fst s)) else tighten_loop G1 A1 (fst s))"

definition tighten :: "('v, 'l::linorder) graph_map \<Rightarrow> (error + ('v, 'l) graph_map) option" where
  "tighten gm =
     (let G1 = domain gm; A1 = letters (alphabet G1) in
      case image_dict (image_letter gm) A1 [] of Inl err \<Rightarrow> Some (Inl err)
      | Inr em0 \<Rightarrow>
          (case tighten_loop G1 A1 em0 of None \<Rightarrow> None
           | Some (Inl err) \<Rightarrow> Some (Inl err)
           | Some (Inr em) \<Rightarrow> Some (set_edge_map gm em)))"

subsection \<open>Stallings folding\<close>

text \<open>Modelled from the spec: the graph operations that subdivision calls.
  \<open>add_new_letters n\<close> adds \<open>n\<close> new positive letters to the alphabet and returns them
  with their inverses; \<open>new_vertices n\<close> returns \<open>n\<close> new vertices. Which names are new is
  the collaborator's choice: the record \<open>names\<close> holds the two choice functions.
  \<open>set_terminal_vertex e v\<close> makes \<open>v\<close> the terminal vertex of \<open>e\<close>, that is the initial
  vertex of its inverse; \<open>add_edge v vt [f, ff]\<close> adds the edge \<open>f\<close> from \<open>v\<close> to \<open>vt\<close>
  with inverse \<open>ff\<close>, and the two vertices where the graph does not have them.\<close>

record ('v, 'l) names =
  new_letter_names :: "'l list \<Rightarrow> nat \<Rightarrow> 'l list"
  new_vertex_names :: "'v list \<Rightarrow> nat \<Rightarrow> 'v list"

definition add_new_letters ::
  "('v, 'l) names \<Rightarrow> 'l alphabet \<Rightarrow> nat \<Rightarrow> 'l alphabet \<times> ('l \<times> 'l) list" where
  "add_new_letters N A n =
     (let fs = new_letter_names N (letters A) n
      in (A\<lparr>positive_letters := positive_letters A @ fs\<rparr>,
          map (\<lambda>f. (f, inverse_of A f)) fs))"

definition new_vertices :: "('v, 'l) names \<Rightarrow> ('v, 'l) graph \<Rightarrow> nat \<Rightarrow> 'v list" where
  "new_vertices N G n = new_vertex_names N (vertices G) n"

definition set_terminal_vertex :: "('v, 'l) graph \<Rightarrow> 'l \<Rightarrow> 'v \<Rightarrow> ('v, 'l) graph" where
  "set_terminal_vertex G e v =
     G\<lparr>initial_vertex := (initial_vertex G)(inverse_of (alphabet G) e := v)\<rparr>"

definition add_vertex :: "('v, 'l) graph \<Rightarrow> 'v \<Rightarrow> ('v, 'l) graph" where
  "add_vertex G v = (if v \<in> set (vertices G) then G else G\<lparr>vertices := vertices G @ [v]\<rparr>)"

definition add_edge :: "('v, 'l) graph \<Rightarrow> 'v \<Rightarrow> 'v \<Rightarrow> 'l \<times> 'l \<Rightarrow> ('v, 'l) graph" where
  "add_edge G v vt fff =
     (add_vertex (add_vertex G v) vt)
       \<lparr>initial_vertex := (initial_vertex G)(fst fff := v, snd fff := vt)\<rparr>"

text \<open>Modelled from the spec: the turns of a graph are the pairs of distinct letters that
  leave the same vertex, each pair once.\<close>

fun pairs :: "'a list \<Rightarrow> ('a \<times> 'a) list" where
  "pairs [] = []"
| "pairs (a # as) = map (Pair a) as @ pairs as"

definition turns :: "('v, 'l) graph \<Rightarrow> ('l \<times> 'l) list" where
  "turns G =
     filter (\<lambda>t. initial_vertex G (fst t) = initial_vertex G (snd t))
       (pairs (letters (alphabet G)))"

text \<open>\<open>subdivide_domain\<close>, lines 260-309. The state of the loop over the new edges: the
  domain graph, \<open>result_map\<close>, the dict \<open>d\<close>, and the edge that was cut last (\<open>e\<close> for
  \<open>i = 0\<close>, \<open>new_edges[i-1][0]\<close> after). \<open>subdivide_edge\<close> is the body of the loop
  for the \<open>i\<close>-th new edge \<open>a\<close>; \<open>subdivide_update\<close> is the part after the loop, which
  updates the edge map (the word morphism of the word morphism of \<open>d\<close> is the word
  morphism of \<open>d\<close>).\<close>

record ('v, 'l) subdivision =
  sub_graph :: "('v, 'l) graph"
  sub_result_map :: "'l word_dict"
  sub_d :: "'l word_dict"
  sub_prev :: "'l"

definition subdivide_edge ::
  "'l \<Rightarrow> 'l list \<Rightarrow> 'v list \<Rightarrow> nat \<Rightarrow> 'l \<times> 'l \<Rightarrow> ('v, 'l) subdivision
     \<Rightarrow> error + ('v, 'l) subdivision" where
  "subdivide_edge e w vs i a s =
     (if i < length vs
      then (let v = vs ! i;
                vt = terminal_vertex (sub_graph s) (sub_prev s);
                f = fst a;
                ff = snd a;
                G1 = add_edge (set_terminal_vertex (sub_graph s) (sub_prev s) v) v vt (f, ff)
            in case inverse_letter (alphabet (sub_graph s)) e of Inl err \<Rightarrow> Inl err
               | Inr ee \<Rightarrow>
                   (case map_of (sub_result_map s) e of None \<Rightarrow> Inl KeyError
                    | Some re \<Rightarrow>
                        (let result_map1 = AList.update e (re @ [f]) (sub_result_map s)
                         in case map_of result_map1 ee of None \<Rightarrow> Inl KeyError
                            | Some ree \<Rightarrow>
                                if Suc i < length w
                                then Inr \<lparr>sub_graph = G1,
                                          sub_result_map = AList.update ee (ff # ree) result_map1,
                                          sub_d = AList.update (fst a) [w ! Suc i] (sub_d s),
                                          sub_prev = f\<rparr>
                                else Inl IndexError)))
      else Inl IndexError)"

fun subdivide_loop ::
  "'l \<Rightarrow> 'l list \<Rightarrow> 'v list \<Rightarrow> nat \<Rightarrow> ('l \<times> 'l) list \<Rightarrow> ('v, 'l) subdivision
     \<Rightarrow> error + ('v, 'l) subdivision" where
  "subdivide_loop e w vs i [] s = Inr s"
| "subdivide_loop e w vs i (a # new_edges) s =
     (case subdivide_edge e w vs i a s of Inl err \<Rightarrow> Inl err
      | Inr s1 \<Rightarrow> subdivide_loop e w vs (Suc i) new_edges s1)"

definition subdivide_update ::
  "('v, 'l::linorder) graph_map \<Rightarrow> 'l \<Rightarrow> 'l list \<Rightarrow> ('l \<times> 'l) list \<Rightarrow> ('v, 'l) subdivision
     \<Rightarrow> error + (('v, 'l) graph_map \<times> 'l word_dict)" where
  "subdivide_update gm e w new_edges s =
     (case w of [] \<Rightarrow> Inl IndexError
      | c # u \<Rightarrow>
          (case image_dict (image_letter gm)
                  (filter (\<lambda>a. list_all (\<lambda>g. a \<noteq> fst g \<and> a \<noteq> snd g) new_edges \<and> a \<noteq> e)
                     (positive_letters (alphabet (sub_graph s))))
                  (AList.update e [c] (sub_d s)) of
             Inl err \<Rightarrow> Inl err
           | Inr d1 \<Rightarrow>
               (case set_edge_map (gm\<lparr>domain := sub_graph s\<rparr>) d1 of Inl err \<Rightarrow> Inl err
                | Inr gm1 \<Rightarrow> Inr (gm1, sub_result_map s))))"

definition subdivide_word ::
  "('v, 'l::linorder) names \<Rightarrow> ('v, 'l) graph_map \<Rightarrow> 'l \<Rightarrow> 'l list
     \<Rightarrow> error + (('v, 'l) graph_map \<times> 'l word_dict)" where
  "subdivide_word N gm e w =
     (let A = alphabet (domain gm);
          AN = add_new_letters N A (length w - 1);
          new_edges = snd AN;
          G0 = (domain gm)\<lparr>alphabet := fst AN\<rparr>;
          vs = new_vertices N G0 (length w - 1)
      in case subdivide_loop e w vs 0 new_edges
                \<lparr>sub_graph = G0, sub_result_map = map (\<lambda>a. (a, [a])) (letters A), sub_d = [], sub_prev = e\<rparr> of
           Inl err \<Rightarrow> Inl err
         | Inr s \<Rightarrow> subdivide_update gm e w new_edges s)"

definition subdivide_domain ::
  "('v, 'l::linorder) names \<Rightarrow> ('v, 'l) graph_map \<Rightarrow> 'l
     \<Rightarrow> error + (('v, 'l) graph_map \<times> 'l word_dict)" where
  "subdivide_domain N gm e =
     (case image_letter gm e of Inl err \<Rightarrow> Inl err | Inr w \<Rightarrow> subdivide_word N gm e w)"

text \<open>\<open>illegal_turns\<close>, lines 311-319.\<close>

fun illegal_turns ::
  "('v, 'l) graph_map \<Rightarrow> ('l \<times> 'l) list \<Rightarrow> error + ('l \<times> 'l) list" where
  "illegal_turns gm [] = Inr []"
| "illegal_turns gm (turn # ts) =
     (case image_letter gm (fst turn) of Inl err \<Rightarrow> Inl err
      | Inr u \<Rightarrow>
          (case u of [] \<Rightarrow> Inl IndexError
           | x # u' \<Rightarrow>
               (case image_letter gm (snd turn) of Inl err \<Rightarrow> Inl err
                | Inr w \<Rightarrow>
                    (case w of [] \<Rightarrow> Inl IndexError
                     | y # w' \<Rightarrow>
                         (case illegal_turns gm ts of Inl err \<Rightarrow> Inl err
                          | Inr result \<Rightarrow> Inr (if x = y then turn # result else result))))))"

text \<open>\<open>folding\<close>, lines 322-363 (\<open>folding_map\<close> here). The name \<open>A\<close> that its loops run
  over is bound neither in the method nor in the module: the argument \<open>A_binding\<close> of the
  model is what the name is bound to where the method runs, \<open>None\<close> when it is bound
  nowhere. The graph's \<open>fold\<close> is not part of the file and is the argument \<open>fold_edges\<close>.
  \<open>list(set(edge_list))\<close> at line 347 lists the letters of \<open>edge_list\<close> in the order of
  Python's hash table, which the code does not determine: it is the argument
  \<open>list_of_set\<close>.\<close>

fun folding_subdivide ::
  "('v, 'l::linorder) names \<Rightarrow> 'l list \<Rightarrow> ('v, 'l) graph_map \<Rightarrow> error + ('v, 'l) graph_map" where
  "folding_subdivide N [] gm = Inr gm"
| "folding_subdivide N (a # as) gm =
     (case image_letter gm a of Inl err \<Rightarrow> Inl err
      | Inr w \<Rightarrow>
          if length w > 1
          then (case subdivide_domain N gm a of Inl err \<Rightarrow> Inl err
                | Inr r \<Rightarrow> folding_subdivide N as (fst r))
          else folding_subdivide N as gm)"

definition folding_edge_list ::
  "('l list \<Rightarrow> 'l list) \<Rightarrow> ('v, 'l) graph_map \<Rightarrow> 'l list \<Rightarrow> ('l \<times> 'l) list \<Rightarrow> 'l \<Rightarrow> 'l list" where
  "folding_edge_list list_of_set gm A Il_turns e1 =
     list_of_set
       (e1 # filter (\<lambda>a. initial_vertex (domain gm) a = initial_vertex (domain gm) e1
                          \<and> e1 \<noteq> a \<and> ((e1, a) \<in> set Il_turns \<or> (a, e1) \<in> set Il_turns)) A)"

text \<open>The \<open>while\<close> loop of lines 336-360: \<open>None\<close> when it never ends. An empty
  \<open>edge_list\<close> has no first letter (\<open>edge_list[0]\<close> at line 353).\<close>

partial_function (option) folding_loop ::
  "(('v, 'l::linorder) graph \<Rightarrow> 'l list \<Rightarrow> ('v, 'l) graph) \<Rightarrow> ('l list \<Rightarrow> 'l list) \<Rightarrow> 'l list
     \<Rightarrow> ('v, 'l) graph_map \<Rightarrow> ('l \<times> 'l) list \<Rightarrow> (error + ('v, 'l) graph_map) option" where
  "folding_loop fold_edges list_of_set A gm Il_turns =
     (case Il_turns of
        [] \<Rightarrow> Some (Inr gm)
      | t # ts \<Rightarrow>
          (let edge_list = folding_edge_list list_of_set gm A Il_turns (fst t);
               gm1 = gm\<lparr>domain := fold_edges (domain gm) edge_list\<rparr>
           in case edge_list of [] \<Rightarrow> Some (Inl IndexError)
              | e0 # es \<Rightarrow>
                  (case image_letter gm1 e0 of Inl err \<Rightarrow> Some (Inl err)
                   | Inr w0 \<Rightarrow>
                       (case image_dict (image_letter gm1) (filter (\<lambda>a. a \<notin> set edge_list) A)
                               [(e0, w0)] of
                          Inl err \<Rightarrow> Some (Inl err)
                        | Inr d \<Rightarrow>
                            (case set_edge_map gm1 d of Inl err \<Rightarrow> Some (Inl err)
                             | Inr gm2 \<Rightarrow>
                                 (case illegal_turns gm2 (turns (domain gm2)) of
                                    Inl err \<Rightarrow> Some (Inl err)
                                  | Inr Il_turns' \<Rightarrow>
                                      folding_loop fold_edges list_of_set A gm2 Il_turns'))))))"

definition folding_map ::
  "('v, 'l::linorder) names \<Rightarrow> (('v, 'l) graph \<Rightarrow> 'l list \<Rightarrow> ('v, 'l) graph) \<Rightarrow> ('l list \<Rightarrow> 'l list)
     \<Rightarrow> 'l list option \<Rightarrow> ('v, 'l) graph_map \<Rightarrow> (error + ('v, 'l) graph_map) option" where
  "folding_map N fold_edges list_of_set A_binding gm =
     (case A_binding of
        None \<Rightarrow> Some (Inl NameError)
      | Some A \<Rightarrow>
          (case folding_subdivide N A gm of Inl err \<Rightarrow> Some (Inl err)
           | Inr gm1 \<Rightarrow>
               (case illegal_turns gm1 (turns (domain gm1)) of Inl err \<Rightarrow> Some (Inl err)
                | Inr Il_turns \<Rightarrow> folding_loop fold_edges list_of_set A gm1 Il_turns)))"

subsection \<open>The homotopy inverse\<close>

text \<open>\<open>inverse\<close>, lines 141-205 (\<open>inverse_map\<close> below). The generators of the free group \<open>F\<close> are \<open>A[0], A[1], ...\<close>
  and their inverses; \<open>F([...])\<close> reduces a word in them. The spanning trees of the two
  graphs (a dict from a vertex to the path that leads to it) and the inversion of a
  free-group automorphism (a dict from the generators to words) are not part of the file:
  they are the arguments \<open>spanning_tree\<close> and \<open>invert\<close>, and \<open>invert\<close> returns the inverse
  or the failure that the inversion reports.\<close>

datatype gen = Gen nat | Gen_inv nat

fun gen_inverse :: "gen \<Rightarrow> gen" where
  "gen_inverse (Gen k) = Gen_inv k"
| "gen_inverse (Gen_inv k) = Gen k"

definition free_group_element :: "gen list \<Rightarrow> gen list" where
  "free_group_element w = foldr (reduce_cons gen_inverse) w []"

definition generator :: "int \<Rightarrow> nat \<Rightarrow> error + gen" where
  "generator n i = (if int i < n then Inr (Gen i) else Inl IndexError)"

definition tree_path :: "('v \<rightharpoonup> 'l list) \<Rightarrow> 'v \<Rightarrow> error + 'l list" where
  "tree_path t v = (case t v of None \<Rightarrow> Inl KeyError | Some p \<Rightarrow> Inr p)"

text \<open>The test of lines 167-169 and 180-182: the letter \<open>a\<close> is not in the spanning tree.\<close>

definition not_in_tree :: "('v, 'l) graph \<Rightarrow> ('v \<rightharpoonup> 'l list) \<Rightarrow> 'l \<Rightarrow> error + bool" where
  "not_in_tree G t a =
     (case tree_path t (initial_vertex G a) of Inl err \<Rightarrow> Inl err
      | Inr p \<Rightarrow>
          (case tree_path t (terminal_vertex G a) of Inl err \<Rightarrow> Inl err
           | Inr q \<Rightarrow>
               (let l = int (length p) - int (length q)
                in Inr ((l \<noteq> 1 \<or> last p \<noteq> inverse_of (alphabet G) a)
                        \<and> (l \<noteq> - 1 \<or> last q \<noteq> a)))))"

text \<open>The loop \<open>t1[initial_vertex(a)] * Word([a]) * reverse_path(t1[terminal_vertex(a)])\<close>
  of a letter, lines 170 and 201.\<close>

definition tree_loop :: "('v, 'l) graph \<Rightarrow> ('v \<rightharpoonup> 'l list) \<Rightarrow> 'l \<Rightarrow> error + 'l list" where
  "tree_loop G t a =
     (case tree_path t (initial_vertex G a) of Inl err \<Rightarrow> Inl err
      | Inr p \<Rightarrow>
          (case tree_path t (terminal_vertex G a) of Inl err \<Rightarrow> Inl err
           | Inr q \<Rightarrow> Inr (p @ [a] @ reverse_path G q)))"

record 'l generators =
  gen_map :: "(gen \<times> 'l list) list"
  translate :: "(gen \<times> 'l) list"
  next_gen :: nat

text \<open>Lines 165-173: the images of the generators, one for each positive letter of the domain
  outside its spanning tree.\<close>

fun inverse_generators ::
  "('v, 'l) graph_map \<Rightarrow> ('v \<rightharpoonup> 'l list) \<Rightarrow> int \<Rightarrow> 'l list \<Rightarrow> 'l generators
     \<Rightarrow> error + 'l generators" where
  "inverse_generators gm t1 n [] s = Inr s"
| "inverse_generators gm t1 n (a # as) s =
     (case not_in_tree (domain gm) t1 a of Inl err \<Rightarrow> Inl err
      | Inr outside \<Rightarrow>
          if outside
          then (case tree_loop (domain gm) t1 a of Inl err \<Rightarrow> Inl err
                | Inr p \<Rightarrow>
                    (case call_path gm p of Inl err \<Rightarrow> Inl err
                     | Inr w \<Rightarrow>
                         (case generator n (next_gen s) of Inl err \<Rightarrow> Inl err
                          | Inr g \<Rightarrow>
                              inverse_generators gm t1 n as
                                \<lparr>gen_map = AList.update g w (gen_map s),
                                 translate =
                                   AList.update (gen_inverse g)
                                     (inverse_of (alphabet (domain gm)) a)
                                     (AList.update g a (translate s)),
                                 next_gen = Suc (next_gen s)\<rparr>)))
          else inverse_generators gm t1 n as s)"

record 'l renaming =
  rename :: "('l \<times> gen) list"
  tree_edges :: "'l word_dict"
  next_name :: nat

text \<open>Lines 178-187: the generator of each positive letter of the codomain outside its
  spanning tree; the letters of the tree get the empty image.\<close>

fun inverse_rename ::
  "('v, 'l) graph \<Rightarrow> ('v \<rightharpoonup> 'l list) \<Rightarrow> int \<Rightarrow> 'l list \<Rightarrow> 'l renaming \<Rightarrow> error + 'l renaming" where
  "inverse_rename G2 t2 n [] s = Inr s"
| "inverse_rename G2 t2 n (a # as) s =
     (case not_in_tree G2 t2 a of Inl err \<Rightarrow> Inl err
      | Inr outside \<Rightarrow>
          if outside
          then (case generator n (next_name s) of Inl err \<Rightarrow> Inl err
                | Inr g \<Rightarrow>
                    inverse_rename G2 t2 n as
                      (s\<lparr>rename := AList.update (inverse_of (alphabet G2) a) (gen_inverse g)
                                      (AList.update a g (rename s)),
                         next_name := Suc (next_name s)\<rparr>))
          else inverse_rename G2 t2 n as (s\<lparr>tree_edges := AList.update a [] (tree_edges s)\<rparr>))"

record 'l automorphism =
  phi :: "(gen \<times> gen list) list"
  phi_translate :: "(gen \<times> 'l) list"
  phi_tree_edges :: "'l word_dict"

text \<open>Lines 151-192, up to the automorphism \<open>phi\<close> that is handed to the inversion.\<close>

definition inverse_automorphism ::
  "(('v, 'l) graph \<Rightarrow> ('v \<rightharpoonup> 'l list)) \<Rightarrow> ('v, 'l) graph_map \<Rightarrow> error + 'l automorphism" where
  "inverse_automorphism spanning_tree gm =
     (let G1 = domain gm; A1 = alphabet G1; t1 = spanning_tree G1;
          G2 = codomain gm; A2 = alphabet G2; t2 = spanning_tree G2;
          n = int (length (positive_letters A1)) - int (length (vertices G1)) + 1
      in case inverse_generators gm t1 n (positive_letters A1)
                \<lparr>gen_map = [], translate = [], next_gen = 0\<rparr> of
           Inl err \<Rightarrow> Inl err
         | Inr gens \<Rightarrow>
             (case inverse_rename G2 t2 n (positive_letters A2)
                     \<lparr>rename = [], tree_edges = [], next_name = 0\<rparr> of
                Inl err \<Rightarrow> Inl err
              | Inr names \<Rightarrow>
                  Inr \<lparr>phi = map (\<lambda>gw. (fst gw, free_group_element
                                                  (List.map_filter (map_of (rename names)) (snd gw))))
                                (gen_map gens),
                       phi_translate = translate gens,
                       phi_tree_edges = tree_edges names\<rparr>))"

text \<open>Lines 199-201: the path of the domain for a word in the generators.\<close>

fun inverse_path ::
  "('v, 'l) graph \<Rightarrow> ('v \<rightharpoonup> 'l list) \<Rightarrow> (gen \<times> 'l) list \<Rightarrow> gen list \<Rightarrow> 'l list
     \<Rightarrow> error + 'l list" where
  "inverse_path G1 t1 tr [] result = Inr result"
| "inverse_path G1 t1 tr (b # w) result =
     (case map_of tr b of None \<Rightarrow> Inl KeyError
      | Some c \<Rightarrow>
          (case tree_loop G1 t1 c of Inl err \<Rightarrow> Inl err
           | Inr p \<Rightarrow> inverse_path G1 t1 tr w (result @ p)))"

text \<open>Lines 195-203: the images of the positive letters of the codomain outside its tree.\<close>

fun inverse_edge_map ::
  "('v, 'l) graph \<Rightarrow> ('v \<rightharpoonup> 'l list) \<Rightarrow> int \<Rightarrow> (gen \<times> 'l) list \<Rightarrow> (gen \<times> gen list) list
     \<Rightarrow> 'l list \<Rightarrow> nat \<Rightarrow> 'l word_dict \<Rightarrow> error + 'l word_dict" where
  "inverse_edge_map G1 t1 n tr psi [] i em = Inr em"
| "inverse_edge_map G1 t1 n tr psi (a # as) i em =
     (if a \<in> fst ` set em
      then inverse_edge_map G1 t1 n tr psi as i em
      else (case generator n i of Inl err \<Rightarrow> Inl err
            | Inr g \<Rightarrow>
                (case map_of psi g of None \<Rightarrow> Inl KeyError
                 | Some w \<Rightarrow>
                     (case inverse_path G1 t1 tr w [] of Inl err \<Rightarrow> Inl err
                      | Inr result \<Rightarrow>
                          inverse_edge_map G1 t1 n tr psi as (Suc i)
                            (AList.update a (reduce_path G1 result) em)))))"

definition inverse_map ::
  "(('v, 'l::linorder) graph \<Rightarrow> ('v \<rightharpoonup> 'l list))
     \<Rightarrow> ((gen \<times> gen list) list \<Rightarrow> error + (gen \<times> gen list) list)
     \<Rightarrow> ('v, 'l) graph_map \<Rightarrow> error + ('v, 'l) graph_map" where
  "inverse_map spanning_tree invert gm =
     (case inverse_automorphism spanning_tree gm of Inl err \<Rightarrow> Inl err
      | Inr aut \<Rightarrow>
          (case invert (phi aut) of Inl err \<Rightarrow> Inl err
           | Inr psi \<Rightarrow>
               (let G1 = domain gm; G2 = codomain gm;
                    n = int (length (positive_letters (alphabet G1))) - int (length (vertices G1)) + 1
                in case inverse_edge_map G1 (spanning_tree G1) n (phi_translate aut) psi
                          (positive_letters (alphabet G2)) 0 (phi_tree_edges aut) of
                     Inl err \<Rightarrow> Inl err
                   | Inr em \<Rightarrow> GraphMap G2 G1 em None)))"

section \<open>Specification predicates\<close>

text \<open>The inverse of a letter is a fixed-point free involution in the domain, and an
  involution in the codomain (\<open>inverses_ok\<close>). The inverse-consistency invariant of a
  graph map: the stored image of the inverse of a letter is the reverse of the stored
  image of the letter and stored images are reduced (\<open>stored_consistent\<close>), and every
  letter of the domain has a stored image (\<open>total_on_alphabet\<close>). An edge-map
  specification covers the alphabet when it gives an image to every positive letter or to
  its inverse.\<close>

definition involution :: "('l \<Rightarrow> 'l) \<Rightarrow> bool" where
  "involution i = (\<forall>x. i (i x) = x)"

definition inverses_ok :: "('v, 'l) graph \<Rightarrow> ('v, 'l) graph \<Rightarrow> bool" where
  "inverses_ok G1 G2 =
     (involution (inverse_of (alphabet G1)) \<and> (\<forall>x. inverse_of (alphabet G1) x \<noteq> x)
      \<and> involution (inverse_of (alphabet G2)))"

definition stored_consistent :: "('v, 'l) graph_map \<Rightarrow> bool" where
  "stored_consistent gm =
     (\<forall>a. edge_map gm (inverse_of (alphabet (domain gm)) a)
            = map_option (reverse_path (codomain gm)) (edge_map gm a)
          \<and> (\<forall>u. edge_map gm a = Some u \<longrightarrow> is_reduced (inverse_of (alphabet (codomain gm))) u))"

definition total_on_alphabet :: "('v, 'l) graph_map \<Rightarrow> bool" where
  "total_on_alphabet gm = (\<forall>a \<in> set (letters (alphabet (domain gm))). edge_map gm a \<noteq> None)"

definition inverse_consistent :: "('v, 'l) graph_map \<Rightarrow> bool" where
  "inverse_consistent gm = (stored_consistent gm \<and> total_on_alphabet gm)"

definition covers :: "('v, 'l) graph \<Rightarrow> 'l word_dict \<Rightarrow> bool" where
  "covers G em =
     (\<forall>a \<in> set (positive_letters (alphabet G)).
        a \<in> fst ` set em \<or> inverse_of (alphabet G) a \<in> fst ` set em)"

text \<open>What \<open>set_edge_map\<close> stores when no lookup fails: \<open>set_edge_map_step\<close> is the
  two assignments of lines 97-98 for one letter, and \<open>store_edge_map\<close> is the graph map
  after all of them.\<close>

definition set_edge_map_step ::
  "('v, 'l) graph_map \<Rightarrow> 'l \<times> 'l list \<Rightarrow> ('l \<rightharpoonup> 'l list) \<Rightarrow> ('l \<rightharpoonup> 'l list)" where
  "set_edge_map_step gm aw m =
     (let a = fst aw;
          r = reduce_path (codomain gm) (snd aw);
          m1 = m(a \<mapsto> r)
      in m1(inverse_of (alphabet (domain gm)) a \<mapsto> reverse_path (codomain gm) r))"

definition store_edge_map :: "('v, 'l::linorder) graph_map \<Rightarrow> 'l word_dict \<Rightarrow> ('v, 'l) graph_map" where
  "store_edge_map gm em =
     gm\<lparr>edge_map := fold (set_edge_map_step gm) (WordMorphism em) Map.empty, vertex_map := None\<rparr>"

definition map_consistent :: "('l \<Rightarrow> 'l) \<Rightarrow> ('v, 'l) graph \<Rightarrow> ('l \<rightharpoonup> 'l list) \<Rightarrow> bool" where
  "map_consistent i G2 m =
     (\<forall>a. m (i a) = map_option (reverse_path G2) (m a)
          \<and> (\<forall>u. m a = Some u \<longrightarrow> is_reduced (inverse_of (alphabet G2)) u))"

section \<open>Example graph maps\<close>

text \<open>Letters with a formal inverse, and the rose with two petals.\<close>

datatype letter = Pos char | Neg char

fun formal_inverse :: "letter \<Rightarrow> letter" where
  "formal_inverse (Pos n) = Neg n"
| "formal_inverse (Neg n) = Pos n"

text \<open>The order of the letters: \<open>Pos c\<close> is the lower-case letter \<open>c\<close> and \<open>Neg c\<close> the
  upper-case one, and Python puts the upper-case letters first.\<close>

fun letter_key :: "letter \<Rightarrow> nat" where
  "letter_key (Neg c) = of_char c"
| "letter_key (Pos c) = 256 + of_char c"

instantiation letter :: linorder
begin

definition less_eq_letter :: "letter \<Rightarrow> letter \<Rightarrow> bool" where
  "less_eq_letter x y = (letter_key x \<le> letter_key y)"

definition less_letter :: "letter \<Rightarrow> letter \<Rightarrow> bool" where
  "less_letter x y = (letter_key x < letter_key y)"

instance
proof
  have inj: "x = y" if "letter_key x = letter_key y" for x y :: letter
  proof -
    have b: "of_char c < (256 :: nat)" for c :: char
      by (metis of_char_mod_256 mod_less_divisor zero_less_numeral)
    show ?thesis
    proof (cases x)
      case x: (Pos c)
      show ?thesis
      proof (cases y)
        case (Pos d)
        with x that show ?thesis by simp
      next
        case (Neg d)
        with x that b[of d] show ?thesis by simp
      qed
    next
      case x: (Neg c)
      show ?thesis
      proof (cases y)
        case (Pos d)
        with x that b[of c] show ?thesis by simp
      next
        case (Neg d)
        with x that show ?thesis by simp
      qed
    qed
  qed
  fix x y z :: letter
  show "(x < y) = (x \<le> y \<and> \<not> y \<le> x)" by (auto simp: less_eq_letter_def less_letter_def)
  show "x \<le> x" by (simp add: less_eq_letter_def)
  show "x \<le> y \<Longrightarrow> y \<le> z \<Longrightarrow> x \<le> z" by (simp add: less_eq_letter_def)
  show "x \<le> y \<Longrightarrow> y \<le> x \<Longrightarrow> x = y" by (simp add: less_eq_letter_def inj)
  show "x \<le> y \<or> y \<le> x" by (auto simp: less_eq_letter_def)
qed

end

definition rose2 :: "(nat, letter) graph" where
  "rose2 = \<lparr>alphabet = \<lparr>positive_letters = [Pos CHR ''a'', Pos CHR ''b''],
                         inverse_of = formal_inverse\<rparr>,
            vertices = [0], initial_vertex = (\<lambda>a. 0)\<rparr>"

text \<open>The map of the rose that sends \<open>a\<close> to \<open>ab\<close> and \<open>b\<close> to \<open>b\<close> (each example
  is the graph map that the constructor returns), and a choice of new names: the next characters after those of an alphabet
  \<open>a, b, ...\<close>, and the next numbers after those of the vertices \<open>0, 1, ...\<close>.\<close>

definition ex_spec :: "letter word_dict" where
  "ex_spec = [(Pos CHR ''a'', [Pos CHR ''a'', Pos CHR ''b'']), (Pos CHR ''b'', [Pos CHR ''b''])]"

definition ex_map :: "(nat, letter) graph_map" where
  "ex_map = projr (GraphMap rose2 rose2 ex_spec None)"

definition ex_names :: "(nat, letter) names" where
  "ex_names = \<lparr>new_letter_names = (\<lambda>ls n. map (\<lambda>k. Pos (char_of (97 + length ls div 2 + k))) [0..<n]),
               new_vertex_names = (\<lambda>vs n. map (\<lambda>k. length vs + k) [0..<n])\<rparr>"

text \<open>The map of the rose that collapses \<open>a\<close> to a point, and the map built from an edge-map
  specification that gives no image to \<open>b\<close>.\<close>

definition collapse_map :: "(nat, letter) graph_map" where
  "collapse_map = projr (GraphMap rose2 rose2 [(Pos CHR ''a'', []), (Pos CHR ''b'', [Pos CHR ''b''])] None)"

definition partial_map :: "(nat, letter) graph_map" where
  "partial_map = projr (GraphMap rose2 rose2 [(Pos CHR ''a'', [Pos CHR ''a''])] None)"

text \<open>The vertices that the vertex map can know: the initial and the terminal vertex of
  every positive letter with a nonempty image.\<close>

definition letter_endpoints :: "('v, 'l) graph_map \<Rightarrow> 'l \<Rightarrow> 'v set" where
  "letter_endpoints gm e =
     (case edge_map gm e of
        Some (x # u) \<Rightarrow> {initial_vertex (domain gm) e, terminal_vertex (domain gm) e}
      | _ \<Rightarrow> {})"

definition endpoints :: "('v, 'l) graph_map \<Rightarrow> 'v set" where
  "endpoints gm = \<Union> (letter_endpoints gm ` set (positive_letters (alphabet (domain gm))))"

text \<open>A path with three vertices and two edges, and the map to the rose that collapses its
  second edge.\<close>

definition path3 :: "(nat, letter) graph" where
  "path3 = \<lparr>alphabet = \<lparr>positive_letters = [Pos CHR ''a'', Pos CHR ''b''],
                         inverse_of = formal_inverse\<rparr>,
            vertices = [0, 1, 2],
            initial_vertex = (\<lambda>x. if x = Pos CHR ''a'' then 0 else if x = Neg CHR ''b'' then 2 else 1)\<rparr>"

definition path_map :: "(nat, letter) graph_map" where
  "path_map = projr (GraphMap path3 rose2 [(Pos CHR ''a'', [Pos CHR ''a'']), (Pos CHR ''b'', [])] None)"

text \<open>The invariant of the dict that the loop of \<open>tighten\<close> works on: its keys are
  distinct, every image is reduced, and the image of the inverse of a key is the reverse of
  the image of the key.\<close>

definition dict_consistent :: "('v, 'l) graph \<Rightarrow> 'l word_dict \<Rightarrow> bool" where
  "dict_consistent G em =
     (distinct (map fst em) \<and>
      (\<forall>a \<in> fst ` set em. \<exists>u. map_of em a = Some u \<and> is_reduced (inverse_of (alphabet G)) u
          \<and> map_of em (inverse_of (alphabet G) a) = Some (reverse_path G u)))"

text \<open>\<open>tighten\<close> reverses paths of the codomain with the inverse of the domain
  (line 223 binds \<open>G2\<close> to \<open>self.domain()\<close>) and \<open>set_edge_map\<close> with the inverse of the
  codomain; the two agree when domain and codomain have the same inverse of a letter.\<close>

definition same_inverse :: "('v, 'l) graph_map \<Rightarrow> bool" where
  "same_inverse gm =
     (inverse_of (alphabet (domain gm)) = inverse_of (alphabet (codomain gm)))"

text \<open>At the vertex \<open>v\<close>, the images of the outgoing letters with a nonempty image have a
  nonempty common prefix: there is such a letter, and all such images begin with the same
  letter \<open>x\<close>.\<close>

definition common_first :: "('v, 'l) graph_map \<Rightarrow> 'v \<Rightarrow> 'l \<Rightarrow> bool" where
  "common_first gm v x =
     ((\<exists>a \<in> set (letters (alphabet (domain gm))).
         initial_vertex (domain gm) a = v \<and> (\<exists>u. edge_map gm a = Some (x # u)))
      \<and> (\<forall>a \<in> set (letters (alphabet (domain gm))).
            initial_vertex (domain gm) a = v \<longrightarrow> (\<forall>y u. edge_map gm a = Some (y # u) \<longrightarrow> y = x)))"

text \<open>The map of the rose \<open>a \<mapsto> baB, b \<mapsto> baaB\<close>, the dict of its images, and the dict
  after one turn of the loop of \<open>tighten\<close>.\<close>

definition conj_map :: "(nat, letter) graph_map" where
  "conj_map = projr (GraphMap rose2 rose2
        [(Pos CHR ''a'', [Pos CHR ''b'', Pos CHR ''a'', Neg CHR ''b'']),
         (Pos CHR ''b'', [Pos CHR ''b'', Pos CHR ''a'', Pos CHR ''a'', Neg CHR ''b''])] None)"

definition conj_dict :: "letter word_dict" where
  "conj_dict = [(Pos CHR ''a'', [Pos CHR ''b'', Pos CHR ''a'', Neg CHR ''b'']),
      (Pos CHR ''b'', [Pos CHR ''b'', Pos CHR ''a'', Pos CHR ''a'', Neg CHR ''b'']),
      (Neg CHR ''a'', [Pos CHR ''b'', Neg CHR ''a'', Neg CHR ''b'']),
      (Neg CHR ''b'', [Pos CHR ''b'', Neg CHR ''a'', Neg CHR ''a'', Neg CHR ''b''])]"

definition tight_dict :: "letter word_dict" where
  "tight_dict = [(Pos CHR ''a'', [Pos CHR ''a'']), (Pos CHR ''b'', [Pos CHR ''a'', Pos CHR ''a'']),
      (Neg CHR ''a'', [Neg CHR ''a'']), (Neg CHR ''b'', [Neg CHR ''a'', Neg CHR ''a''])]"

text \<open>Two vertices joined by the edges \<open>a\<close> and \<open>b\<close>, the map to the rose that sends
  \<open>a\<close> to \<open>ab\<close> and collapses \<open>b\<close>, the dict of its images, and the dict after one turn
  of the loop of \<open>tighten\<close>.\<close>

definition bigon :: "(nat, letter) graph" where
  "bigon = \<lparr>alphabet = \<lparr>positive_letters = [Pos CHR ''a'', Pos CHR ''b''],
                         inverse_of = formal_inverse\<rparr>,
            vertices = [0, 1],
            initial_vertex = (\<lambda>x. case x of Pos n \<Rightarrow> 0 | Neg n \<Rightarrow> 1)\<rparr>"

definition bigon_map :: "(nat, letter) graph_map" where
  "bigon_map = projr (GraphMap bigon rose2 [(Pos CHR ''a'', [Pos CHR ''a'', Pos CHR ''b'']), (Pos CHR ''b'', [])] None)"

definition bigon_dict :: "letter word_dict" where
  "bigon_dict = [(Pos CHR ''a'', [Pos CHR ''a'', Pos CHR ''b'']), (Pos CHR ''b'', []),
                 (Neg CHR ''a'', [Neg CHR ''b'', Neg CHR ''a'']), (Neg CHR ''b'', [])]"

definition bigon_dict' :: "letter word_dict" where
  "bigon_dict' = [(Pos CHR ''a'', [Neg CHR ''b'', Neg CHR ''a'']), (Pos CHR ''b'', []),
                 (Neg CHR ''a'', [Pos CHR ''a'', Pos CHR ''b'']), (Neg CHR ''b'', [])]"

text \<open>The total length of the images of a dict.\<close>

definition total_length :: "'l word_dict \<Rightarrow> nat" where
  "total_length em = sum_list (map (\<lambda>aw. length (snd aw)) em)"

text \<open>The length of the prefix of a vertex, 0 where it has none; the length that the
  letters of \<open>D\<close> strip from the image of \<open>b\<close>, at its front and at its back; and the
  proviso under which an iteration shortens the images: in every image there is room for the
  prefix of its initial vertex and the prefix of its terminal vertex.\<close>

definition prefix_length :: "('v \<rightharpoonup> 'l list) \<Rightarrow> 'v \<Rightarrow> nat" where
  "prefix_length prefix v = (case prefix v of None \<Rightarrow> 0 | Some p \<Rightarrow> length p)"

definition stripped :: "('v, 'l) graph \<Rightarrow> ('v \<rightharpoonup> 'l list) \<Rightarrow> 'l set \<Rightarrow> 'l \<Rightarrow> nat" where
  "stripped G prefix D b =
     (if b \<in> D then prefix_length prefix (initial_vertex G b) else 0)
     + (if inverse_of (alphabet G) b \<in> D
        then prefix_length prefix (initial_vertex G (inverse_of (alphabet G) b)) else 0)"

definition room_for_prefixes :: "('v, 'l) graph \<Rightarrow> ('v \<rightharpoonup> 'l list) \<Rightarrow> 'l word_dict \<Rightarrow> bool" where
  "room_for_prefixes G prefix em =
     (\<forall>b \<in> fst ` set em.
        prefix_length prefix (initial_vertex G b)
        + prefix_length prefix (initial_vertex G (inverse_of (alphabet G) b))
        \<le> length (the (map_of em b)))"

definition iteration_has_room :: "('v, 'l) graph \<Rightarrow> 'l list \<Rightarrow> 'l word_dict \<Rightarrow> bool" where
  "iteration_has_room G A em =
     (case tighten_prefix G em A Map.empty of
        Inl err \<Rightarrow> False
      | Inr prefix \<Rightarrow> room_for_prefixes G prefix em)"

text \<open>The spanning tree of a rose: the empty path to its vertex.\<close>

definition rose_tree :: "(nat, letter) graph \<Rightarrow> (nat \<rightharpoonup> letter list)" where
  "rose_tree G = [0 \<mapsto> []]"

section \<open>Properties\<close>

subsection \<open>Reduced paths\<close>

lemma is_reduced_nth:
  "is_reduced i w = (\<forall>k. Suc k < length w \<longrightarrow> w ! Suc k \<noteq> i (w ! k))"
proof (induction i w rule: is_reduced.induct)
  case (3 i a b w)
  show ?case
  proof
    assume h: "is_reduced i (a # b # w)"
    show "\<forall>k. Suc k < length (a # b # w) \<longrightarrow> (a # b # w) ! Suc k \<noteq> i ((a # b # w) ! k)"
    proof (intro allI impI)
      fix k assume k: "Suc k < length (a # b # w)"
      show "(a # b # w) ! Suc k \<noteq> i ((a # b # w) ! k)"
      proof (cases k)
        case 0 with h show ?thesis by simp
      next
        case (Suc n)
        with h k 3 show ?thesis by simp
      qed
    qed
  next
    assume h: "\<forall>k. Suc k < length (a # b # w) \<longrightarrow> (a # b # w) ! Suc k \<noteq> i ((a # b # w) ! k)"
    from h[rule_format, of 0] have "b \<noteq> i a" by simp
    moreover have "\<forall>k. Suc k < length (b # w) \<longrightarrow> (b # w) ! Suc k \<noteq> i ((b # w) ! k)"
    proof (intro allI impI)
      fix k assume "Suc k < length (b # w)"
      with h[rule_format, of "Suc k"] show "(b # w) ! Suc k \<noteq> i ((b # w) ! k)" by simp
    qed
    ultimately show "is_reduced i (a # b # w)" using 3 by simp
  qed
qed simp_all

lemma is_reduced_take: "is_reduced i w \<Longrightarrow> is_reduced i (take n w)"
  by (simp add: is_reduced_nth)

lemma is_reduced_drop: "is_reduced i w \<Longrightarrow> is_reduced i (drop n w)"
  by (auto simp add: is_reduced_nth)

lemma is_reduced_rev_map:
  assumes "involution i" "is_reduced i w"
  shows "is_reduced i (rev (map i w))"
  unfolding is_reduced_nth
proof (intro allI impI)
  fix k assume k: "Suc k < length (rev (map i w))"
  let ?n = "length w"
  from k have k': "Suc k < ?n" by simp
  have a: "rev (map i w) ! Suc k = i (w ! (?n - Suc (Suc k)))"
    using k' by (simp add: rev_nth)
  have b: "rev (map i w) ! k = i (w ! (?n - Suc k))"
    using k' by (simp add: rev_nth)
  have "Suc (?n - Suc (Suc k)) = ?n - Suc k" using k' by arith
  with assms(2) k' have "w ! (?n - Suc k) \<noteq> i (w ! (?n - Suc (Suc k)))"
    unfolding is_reduced_nth by (metis diff_less zero_less_Suc length_greater_0_conv less_nat_zero_code list.size(3))
  with assms(1) show "rev (map i w) ! Suc k \<noteq> i (rev (map i w) ! k)"
    unfolding a b involution_def by metis
qed

lemma is_reduced_tl: "is_reduced i (b # u) \<Longrightarrow> is_reduced i u"
  by (cases u) simp_all

lemma is_reduced_reduce_cons: "is_reduced i w \<Longrightarrow> is_reduced i (reduce_cons i a w)"
  by (cases w) (auto simp: reduce_cons_def dest: is_reduced_tl)

lemma is_reduced_reduce_path: "is_reduced (inverse_of (alphabet G)) (reduce_path G w)"
  unfolding reduce_path_def by (induction w) (simp_all add: is_reduced_reduce_cons)

lemma reduce_path_reduced: "is_reduced (inverse_of (alphabet G)) w \<Longrightarrow> reduce_path G w = w"
  unfolding reduce_path_def
proof (induction w)
  case (Cons a w)
  then show ?case by (cases w) (auto simp: reduce_cons_def)
qed simp

lemma reverse_reverse: "involution (inverse_of (alphabet G)) \<Longrightarrow> reverse_path G (reverse_path G w) = w"
  by (simp add: reverse_path_def involution_def rev_map comp_def)

lemma is_reduced_reverse_path:
  "involution (inverse_of (alphabet G)) \<Longrightarrow> is_reduced (inverse_of (alphabet G)) w
   \<Longrightarrow> is_reduced (inverse_of (alphabet G)) (reverse_path G w)"
  unfolding reverse_path_def by (rule is_reduced_rev_map)

lemma map_consistent_step:
  assumes i: "involution i" "\<forall>x. i x \<noteq> x" and j: "involution (inverse_of (alphabet G2))"
    and m: "map_consistent i G2 m" and r: "is_reduced (inverse_of (alphabet G2)) r"
  shows "map_consistent i G2 ((m(a \<mapsto> r))(i a \<mapsto> reverse_path G2 r))"
  unfolding map_consistent_def
proof (intro allI conjI impI)
  fix b
  let ?m = "(m(a \<mapsto> r))(i a \<mapsto> reverse_path G2 r)"
  have ia: "i a \<noteq> a" and iia: "i (i a) = a" using i by (auto simp: involution_def)
  show "?m (i b) = map_option (reverse_path G2) (?m b)"
  proof (cases "b = a")
    case True
    then show ?thesis using ia by simp
  next
    case ba: False
    show ?thesis
    proof (cases "b = i a")
      case True
      then show ?thesis using ia iia reverse_reverse[OF j] by simp
    next
      case False
      have "i b \<noteq> a" using False i(1) by (metis involution_def)
      moreover have "i b \<noteq> i a" using ba i(1) by (metis involution_def)
      ultimately show ?thesis using ba False m by (simp add: map_consistent_def)
    qed
  qed
  fix u assume "?m b = Some u"
  then show "is_reduced (inverse_of (alphabet G2)) u"
    using m r is_reduced_reverse_path[OF j r] by (auto simp: map_consistent_def split: if_splits)
qed

lemma map_consistent_fold:
  assumes "involution (inverse_of (alphabet (domain gm)))"
    "\<forall>x. inverse_of (alphabet (domain gm)) x \<noteq> x"
    "involution (inverse_of (alphabet (codomain gm)))"
  shows "map_consistent (inverse_of (alphabet (domain gm))) (codomain gm) m
    \<Longrightarrow> map_consistent (inverse_of (alphabet (domain gm))) (codomain gm) (fold (set_edge_map_step gm) em m)"
proof (induction em arbitrary: m)
  case (Cons aw em)
  have "map_consistent (inverse_of (alphabet (domain gm))) (codomain gm) (set_edge_map_step gm aw m)"
    unfolding set_edge_map_step_def Let_def
    by (rule map_consistent_step[OF assms Cons.prems is_reduced_reduce_path])
  then show ?case using Cons.IH by simp
qed simp

lemma dom_fold_step:
  "dom (fold (set_edge_map_step gm) em m)
     = dom m \<union> fst ` set em \<union> inverse_of (alphabet (domain gm)) ` fst ` set em"
  by (induction em arbitrary: m) (auto simp: set_edge_map_step_def Let_def)

subsection \<open>What set\_edge\_map stores\<close>

lemma WordMorphism_keys: "map fst (WordMorphism d) = sort (remdups (map fst d))"
  by (simp add: WordMorphism_def comp_def)

lemma WordMorphism_fst: "fst ` set (WordMorphism d) = fst ` set d"
proof -
  have "set (map fst (WordMorphism d)) = set (map fst d)" by (simp add: WordMorphism_keys)
  then show ?thesis by simp
qed

lemma WordMorphism_distinct: "distinct (map fst (WordMorphism d))"
  by (simp add: WordMorphism_keys)

lemma WordMorphism_map_of: "map_of (WordMorphism d) = map_of d"
proof
  fix a
  have "map_of (WordMorphism d) a = ((Some \<circ> (\<lambda>a. the (map_of d a))) |` set (sort (remdups (map fst d)))) a"
    unfolding WordMorphism_def by (simp only: map_of_map_restrict)
  also have "\<dots> = map_of d a"
  proof (cases "a \<in> fst ` set d")
    case True
    then have "map_of d a \<noteq> None" by (simp add: map_of_eq_None_iff)
    with True show ?thesis by (auto simp: restrict_map_def)
  next
    case False
    then have "map_of d a = None" by (simp add: map_of_eq_None_iff)
    with False show ?thesis by (simp add: restrict_map_def)
  qed
  finally show "map_of (WordMorphism d) a = map_of d a" .
qed

lemma WordMorphism_subset: "set (WordMorphism d) \<subseteq> set d"
proof
  fix kw assume "kw \<in> set (WordMorphism d)"
  then obtain a where a: "a \<in> fst ` set d" and kw: "kw = (a, the (map_of d a))"
    by (auto simp: WordMorphism_def)
  from a obtain w where "map_of d a = Some w"
    by (metis map_of_eq_None_iff not_None_eq)
  with kw show "kw \<in> set d" by (simp add: map_of_SomeD)
qed

lemma set_edge_map_loop_eq:
  "set_edge_map_loop gm es m =
     (if fst ` set es \<subseteq> set (letters (alphabet (domain gm)))
      then Inr (fold (set_edge_map_step gm) es m) else Inl KeyError)"
  by (induction es arbitrary: m) (simp_all add: Let_def inverse_letter_def set_edge_map_step_def)

lemma set_edge_map_eq:
  "set_edge_map gm em =
     (if fst ` set em \<subseteq> set (letters (alphabet (domain gm)))
      then Inr (store_edge_map gm em) else Inl KeyError)"
  by (simp add: set_edge_map_def set_edge_map_loop_eq WordMorphism_fst store_edge_map_def)

lemma set_edge_map_Inr:
  "set_edge_map gm em = Inr gm' \<Longrightarrow> gm' = store_edge_map gm em"
  by (simp add: set_edge_map_eq split: if_splits)

lemma GraphMap_eq:
  "GraphMap G1 G2 em vm =
     (if fst ` set em \<subseteq> set (letters (alphabet G1))
      then Inr ((store_edge_map \<lparr>domain = G1, codomain = G2, edge_map = Map.empty, vertex_map = None\<rparr> em)
                  \<lparr>vertex_map := vm\<rparr>)
      else Inl KeyError)"
  by (simp add: GraphMap_def set_edge_map_eq)

lemma GraphMap_fields:
  "GraphMap G1 G2 em vm = Inr gm \<Longrightarrow> domain gm = G1 \<and> codomain gm = G2 \<and> vertex_map gm = vm"
  by (auto simp: GraphMap_eq store_edge_map_def split: if_splits)

lemma set_edge_map_stored:
  assumes "inverses_ok (domain gm) (codomain gm)"
  shows "stored_consistent (store_edge_map gm em)"
proof -
  have "map_consistent (inverse_of (alphabet (domain gm))) (codomain gm) Map.empty"
    by (simp add: map_consistent_def)
  from map_consistent_fold[OF _ _ _ this, of "WordMorphism em"] assms
  show ?thesis by (simp add: stored_consistent_def store_edge_map_def map_consistent_def inverses_ok_def)
qed

lemma set_edge_map_total:
  assumes "inverses_ok (domain gm) (codomain gm)" "covers (domain gm) em"
  shows "total_on_alphabet (store_edge_map gm em)"
proof -
  let ?i = "inverse_of (alphabet (domain gm))"
  have inv: "\<And>x. ?i (?i x) = x" using assms(1) by (simp add: inverses_ok_def involution_def)
  have "a \<in> fst ` set em \<union> ?i ` fst ` set em" if "a \<in> set (letters (alphabet (domain gm)))" for a
  proof -
    from that obtain p where p: "p \<in> set (positive_letters (alphabet (domain gm)))" "a = p \<or> a = ?i p"
      by (auto simp: letters_def)
    from assms(2) p(1) have "p \<in> fst ` set em \<or> ?i p \<in> fst ` set em" by (simp add: covers_def)
    with p(2) inv show ?thesis by (metis UnI1 UnI2 imageI)
  qed
  then have "a \<in> dom (fold (set_edge_map_step gm) (WordMorphism em) Map.empty)"
    if "a \<in> set (letters (alphabet (domain gm)))" for a
    using that unfolding dom_fold_step WordMorphism_fst by blast
  then show ?thesis
    by (auto simp: total_on_alphabet_def store_edge_map_def)
qed

subsection \<open>The inverse-consistency invariant\<close>

lemma image_dict_keys:
  "image_dict f as d = Inr d' \<Longrightarrow> fst ` set d' = fst ` set d \<union> set as"
proof (induction as arbitrary: d)
  case (Cons a as)
  then show ?case by (auto simp: AList.dom_update split: sum.splits)
qed simp

lemma GraphMap_stored:
  assumes "inverses_ok G1 G2" "GraphMap G1 G2 em vm = Inr gm"
  shows "stored_consistent gm"
proof -
  let ?g = "\<lparr>domain = G1, codomain = G2, edge_map = Map.empty, vertex_map = None\<rparr>"
  from assms(2) have gm: "gm = (store_edge_map ?g em)\<lparr>vertex_map := vm\<rparr>"
    by (simp add: GraphMap_eq split: if_splits)
  have "stored_consistent (store_edge_map ?g em)"
    using assms(1) set_edge_map_stored[of ?g em] by simp
  then show ?thesis
    by (simp add: gm stored_consistent_def store_edge_map_def)
qed

lemma GraphMap_consistent:
  assumes "inverses_ok G1 G2" "covers G1 em" "GraphMap G1 G2 em vm = Inr gm"
  shows "inverse_consistent gm"
proof -
  let ?g = "\<lparr>domain = G1, codomain = G2, edge_map = Map.empty, vertex_map = None\<rparr>"
  from assms(3) have gm: "gm = (store_edge_map ?g em)\<lparr>vertex_map := vm\<rparr>"
    by (simp add: GraphMap_eq split: if_splits)
  have "total_on_alphabet (store_edge_map ?g em)"
    using assms(1,2) set_edge_map_total[of ?g em] by simp
  then have "total_on_alphabet gm"
    by (simp add: gm total_on_alphabet_def store_edge_map_def)
  with GraphMap_stored[OF assms(1,3)] show ?thesis
    by (simp add: inverse_consistent_def)
qed

lemma covers_positive: "set (positive_letters (alphabet G)) \<subseteq> fst ` set em \<Longrightarrow> covers G em"
  by (auto simp: covers_def)

lemma mul_consistent:
  assumes "inverses_ok (domain other) (codomain self)" "mul self other = Inr h"
  shows "inverse_consistent h"
proof -
  from assms(2) obtain rm where rm: "image_dict
             (\<lambda>a. case image_letter other a of Inl err \<Rightarrow> Inl err | Inr w \<Rightarrow> call_path self w)
             (positive_letters (alphabet (domain other))) [] = Inr rm"
    and h: "GraphMap (domain other) (codomain self) rm None = Inr h"
    by (auto simp: mul_def split: sum.splits)
  from image_dict_keys[OF rm] have "covers (domain other) rm" by (intro covers_positive) simp
  from GraphMap_consistent[OF assms(1) this h] show ?thesis .
qed

lemma compose_edge_map_consistent:
  assumes "inverses_ok (domain gm) (codomain gm)" "compose_edge_map gm edge_morph = Inr gm'"
  shows "inverse_consistent gm'"
proof -
  from assms(2) obtain em where em: "image_dict
             (\<lambda>a. case image_letter gm a of Inl err \<Rightarrow> Inl err | Inr w \<Rightarrow> apply_morphism edge_morph w)
             (positive_letters (alphabet (domain gm))) [] = Inr em"
    and se: "set_edge_map gm em = Inr gm'"
    by (auto simp: compose_edge_map_def split: sum.splits)
  from se have h: "gm' = store_edge_map gm em" by (rule set_edge_map_Inr)
  from image_dict_keys[OF em] have "covers (domain gm) em" by (intro covers_positive) simp
  with assms(1) h show ?thesis
    by (simp add: inverse_consistent_def set_edge_map_stored set_edge_map_total)
qed

lemma tighten_strip_letter_keys:
  "tighten_strip_letter G1 prefix a s = Inr s' \<Longrightarrow> fst ` set (fst s) \<subseteq> fst ` set (fst s')"
proof -
  assume "tighten_strip_letter G1 prefix a s = Inr s'"
  then consider "s' = s" | k1 v1 k2 v2 where "fst s' = AList.update k1 v1 (AList.update k2 v2 (fst s))"
    unfolding tighten_strip_letter_def Let_def
    by (auto split: option.splits if_splits)
  then show ?thesis
    by cases (simp_all add: AList.dom_update subset_insertI2)
qed

lemma tighten_strip_keys:
  "tighten_strip G1 prefix as s = Inr s' \<Longrightarrow> fst ` set (fst s) \<subseteq> fst ` set (fst s')"
proof (induction as arbitrary: s)
  case (Cons a as)
  from Cons.prems obtain s1 where s1: "tighten_strip_letter G1 prefix a s = Inr s1"
    and r: "tighten_strip G1 prefix as s1 = Inr s'"
    by (auto split: sum.splits)
  from tighten_strip_letter_keys[OF s1] Cons.IH[OF r] show ?case by blast
qed simp

lemma tighten_loop_keys:
  assumes "tighten_loop G1 A1 em = Some (Inr em')"
  shows "fst ` set em \<subseteq> fst ` set em'"
proof -
  have "\<forall>em'. r = Inr em' \<longrightarrow> fst ` set em \<subseteq> fst ` set em'" if "tighten_loop G1 A1 em = Some r" for r
  proof (rule tighten_loop.raw_induct[where P = "\<lambda>G A em r. \<forall>em'. r = Inr em' \<longrightarrow> fst ` set em \<subseteq> fst ` set em'", OF _ that])
    fix f G A em r
    assume IH: "\<And>G A em r. f G A em = Some r \<Longrightarrow> \<forall>em'. r = Inr em' \<longrightarrow> fst ` set em \<subseteq> fst ` set em'"
      and eq: "(case tighten_iteration G A em of Inl err \<Rightarrow> Some (Inl err)
               | Inr s \<Rightarrow> if snd s then Some (Inr (fst s)) else f G A (fst s)) = Some r"
    show "\<forall>em'. r = Inr em' \<longrightarrow> fst ` set em \<subseteq> fst ` set em'"
    proof (intro allI impI)
      fix em' assume r: "r = Inr em'"
      from eq r obtain s where s: "tighten_iteration G A em = Inr s"
        by (auto split: sum.splits)
      then obtain p where "tighten_strip G p A (em, True) = Inr s"
        by (auto simp: tighten_iteration_def split: sum.splits)
      from tighten_strip_keys[OF this] have k: "fst ` set em \<subseteq> fst ` set (fst s)" by simp
      show "fst ` set em \<subseteq> fst ` set em'"
      proof (cases "snd s")
        case True
        with eq s r k show ?thesis by simp
      next
        case False
        with eq s have "f G A (fst s) = Some r" by simp
        from IH[OF this] r k show ?thesis by blast
      qed
    qed
  qed
  with assms show ?thesis by blast
qed

lemma letters_covers: "set (letters (alphabet G)) \<subseteq> fst ` set em \<Longrightarrow> covers G em"
  by (auto simp: covers_def letters_def)

lemma tighten_consistent:
  assumes "inverses_ok (domain gm) (codomain gm)" "tighten gm = Some (Inr gm')"
  shows "inverse_consistent gm'"
proof -
  from assms(2) obtain em0 em where
    em0: "image_dict (image_letter gm) (letters (alphabet (domain gm))) [] = Inr em0"
    and em: "tighten_loop (domain gm) (letters (alphabet (domain gm))) em0 = Some (Inr em)"
    and se: "set_edge_map gm em = Inr gm'"
    by (auto simp: tighten_def Let_def split: sum.splits option.splits)
  from se have h: "gm' = store_edge_map gm em" by (rule set_edge_map_Inr)
  from image_dict_keys[OF em0] tighten_loop_keys[OF em]
  have "set (letters (alphabet (domain gm))) \<subseteq> fst ` set em" by auto
  then have "covers (domain gm) em" by (rule letters_covers)
  with assms(1) h show ?thesis
    by (simp add: inverse_consistent_def set_edge_map_stored set_edge_map_total)
qed

lemma alphabet_add_edge: "alphabet (add_edge G v vt fff) = alphabet G"
  by (simp add: add_edge_def add_vertex_def)

lemma alphabet_set_terminal_vertex: "alphabet (set_terminal_vertex G e v) = alphabet G"
  by (simp add: set_terminal_vertex_def)

lemma subdivide_edge_result:
  assumes "subdivide_edge e w vs i a s = Inr s'"
  shows "alphabet (sub_graph s') = alphabet (sub_graph s) \<and> fst ` set (sub_d s') = insert (fst a) (fst ` set (sub_d s))"
proof -
  from assms have
    "sub_graph s' = add_edge (set_terminal_vertex (sub_graph s) (sub_prev s) (vs ! i)) (vs ! i)
                      (terminal_vertex (sub_graph s) (sub_prev s)) (fst a, snd a)"
    "sub_d s' = AList.update (fst a) [w ! Suc i] (sub_d s)"
    unfolding subdivide_edge_def Let_def
    by (auto split: if_splits option.splits sum.splits)
  then show ?thesis
    by (simp add: alphabet_add_edge alphabet_set_terminal_vertex AList.dom_update)
qed

lemma subdivide_loop_result:
  "subdivide_loop e w vs i new_edges s = Inr s'
   \<Longrightarrow> alphabet (sub_graph s') = alphabet (sub_graph s)
       \<and> fst ` set (sub_d s') = fst ` set (sub_d s) \<union> fst ` set new_edges"
proof (induction new_edges arbitrary: i s)
  case (Cons a new_edges)
  from Cons.prems obtain s1 where
    s: "subdivide_edge e w vs i a s = Inr s1"
    and r: "subdivide_loop e w vs (Suc i) new_edges s1 = Inr s'"
    by (cases "subdivide_edge e w vs i a s") auto
  from subdivide_edge_result[OF s] Cons.IH[OF r] show ?case by auto
qed simp

lemma subdivide_domain_consistent:
  assumes ok: "inverses_ok (domain gm) (codomain gm)"
    and sd: "subdivide_domain N gm e = Inr (gm', rm)"
  shows "inverse_consistent gm' \<and> inverses_ok (domain gm') (codomain gm')"
proof -
  let ?A = "alphabet (domain gm)"
  let ?i = "inverse_of ?A"
  from sd obtain w where w: "image_letter gm e = Inr w" and sw: "subdivide_word N gm e w = Inr (gm', rm)"
    unfolding subdivide_domain_def by (cases "image_letter gm e") simp_all
  let ?AN = "add_new_letters N ?A (length w - 1)"
  let ?G0 = "(domain gm)\<lparr>alphabet := fst ?AN\<rparr>"
  let ?vs = "new_vertices N ?G0 (length w - 1)"
  let ?s0 = "\<lparr>sub_graph = ?G0, sub_result_map = map (\<lambda>a. (a, [a])) (letters ?A), sub_d = [], sub_prev = e\<rparr>"
  from sw obtain s where
    loop: "subdivide_loop e w ?vs 0 (snd ?AN) ?s0 = Inr s"
    and su: "subdivide_update gm e w (snd ?AN) s = Inr (gm', rm)"
    unfolding subdivide_word_def Let_def
    by (cases "subdivide_loop e w ?vs 0 (snd ?AN) ?s0") simp_all
  define G where "G = sub_graph s"
  from su obtain c u where wc: "w = c # u"
    unfolding subdivide_update_def by (cases w) simp_all
  let ?ps = "filter (\<lambda>a. list_all (\<lambda>g. a \<noteq> fst g \<and> a \<noteq> snd g) (snd ?AN) \<and> a \<noteq> e)
                   (positive_letters (alphabet G))"
  from su wc obtain d1 where
    d1: "image_dict (image_letter gm) ?ps (AList.update e [c] (sub_d s)) = Inr d1"
    and se: "set_edge_map (gm\<lparr>domain := G\<rparr>) d1 = Inr gm'"
    unfolding subdivide_update_def G_def
    by (cases "image_dict (image_letter gm) (filter (\<lambda>a. list_all (\<lambda>g. a \<noteq> fst g \<and> a \<noteq> snd g) (snd ?AN) \<and> a \<noteq> e)
                   (positive_letters (alphabet (sub_graph s)))) (AList.update e [c] (sub_d s))")
       (auto split: sum.splits)
  from se have gm': "gm' = store_edge_map (gm\<lparr>domain := G\<rparr>) d1" by (rule set_edge_map_Inr)
  from subdivide_loop_result[OF loop]
  have G: "alphabet G = fst ?AN" and dk: "fst ` set (sub_d s) = fst ` set (snd ?AN)"
    by (simp_all add: G_def)
  have iG: "inverse_of (alphabet G) = ?i"
    by (simp add: G add_new_letters_def Let_def)
  have ok': "inverses_ok (domain (gm\<lparr>domain := G\<rparr>)) (codomain (gm\<lparr>domain := G\<rparr>))"
    using ok by (simp add: inverses_ok_def iG)
  have snd_AN: "\<forall>g \<in> set (snd ?AN). snd g = ?i (fst g)"
    by (auto simp: add_new_letters_def Let_def)
  have inv: "\<And>x. ?i (?i x) = x" using ok by (simp add: inverses_ok_def involution_def)
  have "covers G d1"
    unfolding covers_def
  proof
    fix a assume a: "a \<in> set (positive_letters (alphabet G))"
    have keys: "fst ` set d1 = insert e (fst ` set (snd ?AN)) \<union>
        {a \<in> set (positive_letters (alphabet G)). list_all (\<lambda>g. a \<noteq> fst g \<and> a \<noteq> snd g) (snd ?AN) \<and> a \<noteq> e}"
      using image_dict_keys[OF d1] dk by (auto simp: AList.dom_update)
    show "a \<in> fst ` set d1 \<or> inverse_of (alphabet G) a \<in> fst ` set d1"
    proof (cases "a = e \<or> a \<in> fst ` set (snd ?AN)")
      case True
      then show ?thesis unfolding keys by blast
    next
      case False
      show ?thesis
      proof (cases "\<exists>g \<in> set (snd ?AN). a = snd g")
        case True
        then obtain g where g: "g \<in> set (snd ?AN)" "a = snd g" by blast
        with snd_AN have "?i a = fst g" using inv by simp
        moreover from g(1) have "fst g \<in> fst ` set (snd ?AN)" by (rule imageI)
        ultimately have "inverse_of (alphabet G) a \<in> fst ` set d1"
          unfolding keys iG by simp
        then show ?thesis ..
      next
        case nf: False
        with False a have "a \<in> fst ` set d1"
          unfolding keys by (auto simp: list_all_iff)
        then show ?thesis ..
      qed
    qed
  qed
  then have "covers (domain (gm\<lparr>domain := G\<rparr>)) d1" by simp
  from set_edge_map_stored[OF ok'] set_edge_map_total[OF ok' this] gm'
  have "inverse_consistent gm'" by (simp add: inverse_consistent_def)
  moreover have "inverses_ok (domain gm') (codomain gm')"
    using ok' gm' by (simp add: store_edge_map_def)
  ultimately show ?thesis ..
qed

subsection \<open>Evaluating the examples\<close>

lemma involution_formal_inverse: "involution formal_inverse"
  unfolding involution_def
proof
  fix x show "formal_inverse (formal_inverse x) = x" by (cases x) simp_all
qed

lemma formal_inverse_neq: "formal_inverse x \<noteq> x"
  by (cases x) simp_all

lemma inverses_ok_rose2: "inverses_ok rose2 rose2"
  by (simp add: inverses_ok_def rose2_def involution_formal_inverse formal_inverse_neq)

lemma letters_rose2:
  "letters (alphabet rose2) = [Pos CHR ''a'', Pos CHR ''b'', Neg CHR ''a'', Neg CHR ''b'']"
  by (simp add: letters_def rose2_def)

lemma positive_rose2: "positive_letters (alphabet rose2) = [Pos CHR ''a'', Pos CHR ''b'']"
  and inverse_rose2: "inverse_of (alphabet rose2) = formal_inverse"
  and vertices_rose2: "vertices rose2 = [0]"
  by (simp_all add: rose2_def)

lemma letters_bigon:
  "letters (alphabet bigon) = [Pos CHR ''a'', Pos CHR ''b'', Neg CHR ''a'', Neg CHR ''b'']"
  by (simp add: letters_def bigon_def)

lemma letters_path3:
  "letters (alphabet path3) = [Pos CHR ''a'', Pos CHR ''b'', Neg CHR ''a'', Neg CHR ''b'']"
  by (simp add: letters_def path3_def)

text \<open>The constructor returns on each of the examples.\<close>

lemma ex_map_built: "GraphMap rose2 rose2 ex_spec None = Inr ex_map"
  by (simp add: ex_map_def GraphMap_eq ex_spec_def letters_rose2)

lemma collapse_map_built:
  "GraphMap rose2 rose2 [(Pos CHR ''a'', []), (Pos CHR ''b'', [Pos CHR ''b''])] None = Inr collapse_map"
  by (simp add: collapse_map_def GraphMap_eq letters_rose2)

lemma partial_map_built:
  "GraphMap rose2 rose2 [(Pos CHR ''a'', [Pos CHR ''a''])] None = Inr partial_map"
  by (simp add: partial_map_def GraphMap_eq letters_rose2)

lemma path_map_built:
  "GraphMap path3 rose2 [(Pos CHR ''a'', [Pos CHR ''a'']), (Pos CHR ''b'', [])] None = Inr path_map"
  by (simp add: path_map_def GraphMap_eq letters_path3)

lemma conj_map_built:
  "GraphMap rose2 rose2
     [(Pos CHR ''a'', [Pos CHR ''b'', Pos CHR ''a'', Neg CHR ''b'']),
      (Pos CHR ''b'', [Pos CHR ''b'', Pos CHR ''a'', Pos CHR ''a'', Neg CHR ''b''])] None = Inr conj_map"
  by (simp add: conj_map_def GraphMap_eq letters_rose2)

lemma bigon_map_built:
  "GraphMap bigon rose2 [(Pos CHR ''a'', [Pos CHR ''a'', Pos CHR ''b'']), (Pos CHR ''b'', [])] None
     = Inr bigon_map"
  by (simp add: bigon_map_def GraphMap_eq letters_bigon)

lemma ex1: "domain ex_map = rose2" "codomain ex_map = rose2"
  using GraphMap_fields[OF ex_map_built] by simp_all

text \<open>When an edge map gives an image to a letter and another to its inverse, the letter
  that comes later in the order of the letters decides: the lower-case one.\<close>

lemma set_edge_map_both_keys:
  "set_edge_map ex_map [(Pos CHR ''a'', [Pos CHR ''a'', Pos CHR ''b'']), (Neg CHR ''a'', [Pos CHR ''b''])]
     = Inr (store_edge_map ex_map
              [(Pos CHR ''a'', [Pos CHR ''a'', Pos CHR ''b'']), (Neg CHR ''a'', [Pos CHR ''b''])])
   \<and> edge_map (store_edge_map ex_map
              [(Pos CHR ''a'', [Pos CHR ''a'', Pos CHR ''b'']), (Neg CHR ''a'', [Pos CHR ''b''])])
         (Pos CHR ''a'') = Some [Pos CHR ''a'', Pos CHR ''b'']
   \<and> edge_map (store_edge_map ex_map
              [(Pos CHR ''a'', [Pos CHR ''a'', Pos CHR ''b'']), (Neg CHR ''a'', [Pos CHR ''b''])])
         (Neg CHR ''a'') = Some [Neg CHR ''b'', Neg CHR ''a'']"
proof -
  have "edge_map (store_edge_map ex_map
              [(Pos CHR ''a'', [Pos CHR ''a'', Pos CHR ''b'']), (Neg CHR ''a'', [Pos CHR ''b''])])
         (Pos CHR ''a'') = Some [Pos CHR ''a'', Pos CHR ''b'']"
    "edge_map (store_edge_map ex_map
              [(Pos CHR ''a'', [Pos CHR ''a'', Pos CHR ''b'']), (Neg CHR ''a'', [Pos CHR ''b''])])
         (Neg CHR ''a'') = Some [Neg CHR ''b'', Neg CHR ''a'']"
    by code_simp+
  then show ?thesis by (simp add: set_edge_map_eq ex1 letters_rose2)
qed

lemma ex_dict: "image_dict (image_letter ex_map) (letters (alphabet rose2)) [] =
    Inr [(Pos CHR ''a'', [Pos CHR ''a'', Pos CHR ''b'']), (Pos CHR ''b'', [Pos CHR ''b'']),
         (Neg CHR ''a'', [Neg CHR ''b'', Neg CHR ''a'']), (Neg CHR ''b'', [Neg CHR ''b''])]"
  by code_simp

lemma ex_mul_dict: "image_dict
             (\<lambda>a. case image_letter ex_map a of Inl err \<Rightarrow> Inl err | Inr w \<Rightarrow> call_path ex_map w)
             (positive_letters (alphabet rose2)) [] =
        Inr [(Pos CHR ''a'', [Pos CHR ''a'', Pos CHR ''b'', Pos CHR ''b'']), (Pos CHR ''b'', [Pos CHR ''b''])]"
  by code_simp

lemma ex_mul: "mul ex_map ex_map = GraphMap rose2 rose2
     [(Pos CHR ''a'', [Pos CHR ''a'', Pos CHR ''b'', Pos CHR ''b'']), (Pos CHR ''b'', [Pos CHR ''b''])] None"
  by (simp add: mul_def ex1 ex_mul_dict)

lemma ex_mul_returns: "\<not> isl (mul ex_map ex_map)"
  by (simp add: ex_mul GraphMap_eq letters_rose2)

lemma ex_compose_returns: "\<not> isl (compose_edge_map ex_map (edge_map ex_map))"
  by code_simp

lemma ex_subdivide: "\<not> isl (subdivide_domain ex_names ex_map (Pos CHR ''a''))"
  by code_simp

lemma conj1: "domain conj_map = rose2" "codomain conj_map = rose2"
  using GraphMap_fields[OF conj_map_built] by simp_all

lemma conj_dict0: "image_dict (image_letter conj_map) (letters (alphabet rose2)) [] = Inr conj_dict"
  by code_simp

lemma conj_it1: "tighten_iteration rose2 (letters (alphabet rose2)) conj_dict = Inr (tight_dict, False)"
  by code_simp

lemma conj_it2: "tighten_iteration rose2 (letters (alphabet rose2)) tight_dict = Inr (tight_dict, True)"
  by code_simp

lemma conj_tighten: "tighten conj_map = Some (Inr (store_edge_map conj_map tight_dict))"
proof -
  have "tighten_loop rose2 (letters (alphabet rose2)) tight_dict = Some (Inr tight_dict)"
    by (subst tighten_loop.simps) (simp add: conj_it2)
  then have "tighten_loop rose2 (letters (alphabet rose2)) conj_dict = Some (Inr tight_dict)"
    by (subst tighten_loop.simps) (simp add: conj_it1)
  moreover have "fst ` set tight_dict \<subseteq> set (letters (alphabet rose2))"
    by (simp add: tight_dict_def letters_rose2)
  then have "set_edge_map conj_map tight_dict = Inr (store_edge_map conj_map tight_dict)"
    by (simp add: set_edge_map_eq conj1)
  ultimately show ?thesis
    by (simp add: tighten_def Let_def conj1 conj_dict0)
qed

lemma conj_images:
  "edge_map conj_map (Pos CHR ''a'') = Some [Pos CHR ''b'', Pos CHR ''a'', Neg CHR ''b'']"
  "edge_map (store_edge_map conj_map tight_dict) (Pos CHR ''a'') = Some [Pos CHR ''a'']"
  "edge_map (store_edge_map conj_map tight_dict) (Pos CHR ''b'') = Some [Pos CHR ''a'', Pos CHR ''a'']"
  by code_simp+

subsection \<open>C1: the invariant after every mutation of the edge map\<close>

text \<open>
  C1, as stated, fails. The constructor returns on the rose with letters \<open>a\<close> and \<open>b\<close>
  and an edge map that gives an image to \<open>a\<close> only. In the graph map it returns, the letter
  \<open>b\<close> of the domain alphabet has no stored image (looking it up raises \<open>KeyError\<close>), so
  the invariant does not hold for every letter of the domain alphabet.
\<close>

theorem edge_map_invariant_counterexample:
  "GraphMap rose2 rose2 [(Pos CHR ''a'', [Pos CHR ''a''])] None = Inr partial_map
   \<and> inverses_ok (domain partial_map) (codomain partial_map)
   \<and> Pos CHR ''b'' \<in> set (letters (alphabet (domain partial_map)))
   \<and> edge_map partial_map (Pos CHR ''b'') = None
   \<and> image_letter partial_map (Pos CHR ''b'') = Inl KeyError
   \<and> \<not> inverse_consistent partial_map"
proof -
  have d: "domain partial_map = rose2" "codomain partial_map = rose2"
    using GraphMap_fields[OF partial_map_built] by simp_all
  have e: "edge_map partial_map (Pos CHR ''b'') = None" by code_simp
  have l: "Pos CHR ''b'' \<in> set (letters (alphabet (domain partial_map)))"
    by (simp add: d letters_rose2)
  from e l have "\<not> total_on_alphabet partial_map"
    unfolding total_on_alphabet_def by blast
  then have "\<not> inverse_consistent partial_map" by (simp add: inverse_consistent_def)
  with e l show ?thesis
    by (simp add: partial_map_built d inverses_ok_rose2 image_letter_def)
qed

text \<open>
  C1, amended. Where the inverse of a letter is a fixed-point free involution of the
  domain's letters and an involution of the codomain's, the graph map that an operation
  on the edge map returns satisfies the inverse-consistency invariant: after
  \<open>set_edge_map\<close> and the constructor, the stored image of the inverse of a letter is the
  reverse of the stored image of the letter and stored images are reduced, and every
  letter of the domain alphabet has a stored image when the given edge map has an image
  for every positive letter or for its inverse; after \<open>__mul__\<close>, \<open>compose_edge_map\<close>,
  \<open>tighten\<close> and \<open>subdivide_domain\<close>, every letter of the domain alphabet has a stored
  image, the stored image of the inverse letter is its reverse, and both are reduced.
\<close>

theorem edge_map_invariant:
  assumes ok: "inverses_ok (domain gm) (codomain gm)"
  shows "(\<forall>gm'. set_edge_map gm em = Inr gm' \<longrightarrow>
            stored_consistent gm' \<and> (covers (domain gm) em \<longrightarrow> inverse_consistent gm'))
       \<and> (\<forall>gm'. GraphMap (domain gm) (codomain gm) em vm = Inr gm' \<longrightarrow>
            stored_consistent gm' \<and> (covers (domain gm) em \<longrightarrow> inverse_consistent gm'))
       \<and> (\<forall>other h. inverses_ok (domain other) (codomain gm) \<longrightarrow> mul gm other = Inr h
            \<longrightarrow> inverse_consistent h)
       \<and> (\<forall>edge_morph gm'. compose_edge_map gm edge_morph = Inr gm' \<longrightarrow> inverse_consistent gm')
       \<and> (\<forall>gm'. tighten gm = Some (Inr gm') \<longrightarrow> inverse_consistent gm')
       \<and> (\<forall>e gm' rm. subdivide_domain N gm e = Inr (gm', rm) \<longrightarrow> inverse_consistent gm')"
proof (intro conjI allI impI)
  fix gm' assume "set_edge_map gm em = Inr gm'"
  then have g: "gm' = store_edge_map gm em" by (rule set_edge_map_Inr)
  show "stored_consistent gm'" unfolding g by (rule set_edge_map_stored[OF ok])
  assume "covers (domain gm) em"
  from set_edge_map_stored[OF ok] set_edge_map_total[OF ok this]
  show "inverse_consistent gm'" unfolding g by (simp add: inverse_consistent_def)
next
  fix gm' assume g: "GraphMap (domain gm) (codomain gm) em vm = Inr gm'"
  show "stored_consistent gm'" by (rule GraphMap_stored[OF ok g])
  assume "covers (domain gm) em"
  from GraphMap_consistent[OF ok this g] show "inverse_consistent gm'" .
next
  fix other h assume "inverses_ok (domain other) (codomain gm)" "mul gm other = Inr h"
  then show "inverse_consistent h" by (rule mul_consistent)
next
  fix edge_morph gm' assume "compose_edge_map gm edge_morph = Inr gm'"
  with ok show "inverse_consistent gm'" by (rule compose_edge_map_consistent)
next
  fix gm' assume "tighten gm = Some (Inr gm')"
  with ok show "inverse_consistent gm'" by (rule tighten_consistent)
next
  fix e gm' rm assume "subdivide_domain N gm e = Inr (gm', rm)"
  from subdivide_domain_consistent[OF ok this] show "inverse_consistent gm'" by simp
qed

theorem edge_map_invariant_witness:
  "inverses_ok (domain ex_map) (codomain ex_map) \<and> covers (domain ex_map) ex_spec
   \<and> (\<exists>gm'. set_edge_map ex_map ex_spec = Inr gm' \<and> inverse_consistent gm')
   \<and> GraphMap (domain ex_map) (codomain ex_map) ex_spec None = Inr ex_map
   \<and> inverse_consistent ex_map
   \<and> (\<exists>h. mul ex_map ex_map = Inr h \<and> inverse_consistent h)
   \<and> (\<exists>gm'. compose_edge_map ex_map (edge_map ex_map) = Inr gm' \<and> inverse_consistent gm')
   \<and> (\<exists>gm' rm. subdivide_domain ex_names ex_map (Pos CHR ''a'') = Inr (gm', rm) \<and> inverse_consistent gm')
   \<and> inverses_ok (domain conj_map) (codomain conj_map)
   \<and> edge_map conj_map (Pos CHR ''a'') = Some [Pos CHR ''b'', Pos CHR ''a'', Neg CHR ''b'']
   \<and> (\<exists>gm'. tighten conj_map = Some (Inr gm') \<and> edge_map gm' (Pos CHR ''a'') = Some [Pos CHR ''a'']
          \<and> inverse_consistent gm')"
proof -
  have ok: "inverses_ok (domain ex_map) (codomain ex_map)" by (simp add: ex1 inverses_ok_rose2)
  have cov: "covers (domain ex_map) ex_spec" by (simp add: covers_def ex1 positive_rose2 ex_spec_def)
  note T = edge_map_invariant[OF ok, of ex_spec None ex_names]
  have s: "set_edge_map ex_map ex_spec = Inr (store_edge_map ex_map ex_spec)"
    by (simp add: set_edge_map_eq ex1 letters_rose2 ex_spec_def)
  from T s cov have 1: "\<exists>gm'. set_edge_map ex_map ex_spec = Inr gm' \<and> inverse_consistent gm'"
    by blast
  have b: "GraphMap (domain ex_map) (codomain ex_map) ex_spec None = Inr ex_map"
    by (simp add: ex1 ex_map_built)
  from T b cov have 2: "inverse_consistent ex_map" by blast
  from ex_mul_returns obtain h where h: "mul ex_map ex_map = Inr h"
    by (cases "mul ex_map ex_map") simp_all
  from T ok h have 3: "\<exists>h. mul ex_map ex_map = Inr h \<and> inverse_consistent h" by blast
  from ex_compose_returns obtain c where c: "compose_edge_map ex_map (edge_map ex_map) = Inr c"
    by (cases "compose_edge_map ex_map (edge_map ex_map)") simp_all
  from T c have 4: "\<exists>gm'. compose_edge_map ex_map (edge_map ex_map) = Inr gm' \<and> inverse_consistent gm'"
    by blast
  from ex_subdivide obtain r where "subdivide_domain ex_names ex_map (Pos CHR ''a'') = Inr r"
    by (cases "subdivide_domain ex_names ex_map (Pos CHR ''a'')") simp_all
  then have "subdivide_domain ex_names ex_map (Pos CHR ''a'') = Inr (fst r, snd r)" by simp
  with T have 5: "\<exists>gm' rm. subdivide_domain ex_names ex_map (Pos CHR ''a'') = Inr (gm', rm) \<and> inverse_consistent gm'"
    by blast
  have okc: "inverses_ok (domain conj_map) (codomain conj_map)" by (simp add: conj1 inverses_ok_rose2)
  from edge_map_invariant[OF okc, of ex_spec None ex_names] conj_tighten
  have "inverse_consistent (store_edge_map conj_map tight_dict)" by blast
  with conj_tighten conj_images(2)
  have 6: "\<exists>gm'. tighten conj_map = Some (Inr gm') \<and> edge_map gm' (Pos CHR ''a'') = Some [Pos CHR ''a'']
          \<and> inverse_consistent gm'" by blast
  from ok cov 1 b 2 3 4 5 okc conj_images(1) 6 show ?thesis by (intro conjI)
qed

subsection \<open>C10: what tighten leaves alone\<close>

text \<open>
  C10. When \<open>tighten\<close> returns, the graph map it returns differs from the one it was
  called on in the stored edge map and in the cached vertex map only, and the vertex map
  is forgotten: the domain and the codomain graph, their vertices and letters, are the same.
\<close>

theorem tighten_frame:
  "tighten gm = Some (Inr gm') \<Longrightarrow>
     domain gm' = domain gm \<and> codomain gm' = codomain gm \<and> vertex_map gm' = None
     \<and> gm' = gm\<lparr>edge_map := edge_map gm', vertex_map := None\<rparr>"
  by (auto simp: tighten_def Let_def set_edge_map_eq store_edge_map_def
      split: sum.splits option.splits if_splits)

theorem tighten_frame_witness:
  "\<exists>gm'. tighten conj_map = Some (Inr gm') \<and> domain gm' = domain conj_map \<and> codomain gm' = codomain conj_map
     \<and> vertex_map gm' = None \<and> gm' = conj_map\<lparr>edge_map := edge_map gm', vertex_map := None\<rparr>
     \<and> vertices (domain gm') = [0] \<and> positive_letters (alphabet (domain gm')) = [Pos CHR ''a'', Pos CHR ''b'']
     \<and> edge_map conj_map (Pos CHR ''a'') = Some [Pos CHR ''b'', Pos CHR ''a'', Neg CHR ''b'']
     \<and> edge_map gm' (Pos CHR ''a'') = Some [Pos CHR ''a'']"
  using tighten_frame[OF conj_tighten] conj_tighten conj_images
  by (simp add: conj1 positive_rose2 vertices_rose2)

subsection \<open>C5: an edge map that leaves a letter out\<close>

text \<open>
  C5, as stated, fails: \<open>b\<close> is a positive letter of the rose, and given an edge map with
  an image for \<open>a\<close> only, \<open>set_edge_map\<close> and the constructor return a graph map in which
  \<open>b\<close> and its inverse have no stored image; the \<open>KeyError\<close> comes later, when the image of
  \<open>b\<close> is looked up.
\<close>

theorem set_edge_map_unmapped_counterexample:
  "Pos CHR ''b'' \<in> set (positive_letters (alphabet (domain ex_map)))
   \<and> set_edge_map ex_map [(Pos CHR ''a'', [Pos CHR ''a''])]
       = Inr (store_edge_map ex_map [(Pos CHR ''a'', [Pos CHR ''a''])])
   \<and> edge_map (store_edge_map ex_map [(Pos CHR ''a'', [Pos CHR ''a''])]) (Pos CHR ''b'') = None
   \<and> GraphMap rose2 rose2 [(Pos CHR ''a'', [Pos CHR ''a''])] None = Inr partial_map
   \<and> edge_map partial_map (Pos CHR ''b'') = None \<and> edge_map partial_map (Neg CHR ''b'') = None
   \<and> image_letter partial_map (Pos CHR ''b'') = Inl KeyError"
proof -
  have "edge_map (store_edge_map ex_map [(Pos CHR ''a'', [Pos CHR ''a''])]) (Pos CHR ''b'') = None"
    "edge_map partial_map (Pos CHR ''b'') = None" "edge_map partial_map (Neg CHR ''b'') = None"
    "image_letter partial_map (Pos CHR ''b'') = Inl KeyError"
    by code_simp+
  then show ?thesis
    by (simp add: partial_map_built set_edge_map_eq ex1 letters_rose2 positive_rose2)
qed

text \<open>
  C5, amended. \<open>set_edge_map\<close> and the constructor raise no \<open>MalformedEdgeMapError\<close>. A
  key of the given edge map that is not a letter of the domain alphabet makes them raise
  \<open>KeyError\<close>. Given an edge map whose keys are letters of the domain alphabet and whose
  images are paths over the letters of the codomain, where the inverse of a letter is an
  involution, they return: the letters with a stored image are exactly the keys and their
  inverses, so a letter that is given no image, neither directly nor through its inverse,
  is left unmapped together with its inverse, and looking up its image raises \<open>KeyError\<close>.
\<close>

theorem set_edge_map_stores_keys:
  "set_edge_map gm em \<noteq> Inl MalformedEdgeMapError
   \<and> GraphMap (domain gm) (codomain gm) em vm \<noteq> Inl MalformedEdgeMapError
   \<and> (\<not> fst ` set em \<subseteq> set (letters (alphabet (domain gm))) \<longrightarrow>
        set_edge_map gm em = Inl KeyError
        \<and> GraphMap (domain gm) (codomain gm) em vm = Inl KeyError)
   \<and> (involution (inverse_of (alphabet (domain gm))) \<longrightarrow>
      fst ` set em \<subseteq> set (letters (alphabet (domain gm))) \<longrightarrow>
      (\<forall>w \<in> snd ` set em. set w \<subseteq> set (letters (alphabet (codomain gm)))) \<longrightarrow>
        (\<exists>m. set_edge_map gm em = Inr (gm\<lparr>edge_map := m, vertex_map := None\<rparr>)
           \<and> GraphMap (domain gm) (codomain gm) em vm
               = Inr \<lparr>domain = domain gm, codomain = codomain gm, edge_map = m, vertex_map = vm\<rparr>
           \<and> dom m = fst ` set em \<union> inverse_of (alphabet (domain gm)) ` fst ` set em
           \<and> (\<forall>a. a \<notin> fst ` set em \<longrightarrow> inverse_of (alphabet (domain gm)) a \<notin> fst ` set em \<longrightarrow>
                 m a = None \<and> m (inverse_of (alphabet (domain gm)) a) = None
                 \<and> image_letter (gm\<lparr>edge_map := m, vertex_map := None\<rparr>) a = Inl KeyError)))"
proof -
  let ?i = "inverse_of (alphabet (domain gm))"
  let ?g = "\<lparr>domain = domain gm, codomain = codomain gm, edge_map = Map.empty, vertex_map = None\<rparr>"
  let ?m = "fold (set_edge_map_step gm) (WordMorphism em) Map.empty"
  have step: "set_edge_map_step ?g = set_edge_map_step gm"
    by (intro ext) (simp add: set_edge_map_step_def)
  have 1: "set_edge_map gm em \<noteq> Inl MalformedEdgeMapError"
    "GraphMap (domain gm) (codomain gm) em vm \<noteq> Inl MalformedEdgeMapError"
    by (simp_all add: set_edge_map_eq GraphMap_eq)
  have 2: "set_edge_map gm em = Inl KeyError \<and> GraphMap (domain gm) (codomain gm) em vm = Inl KeyError"
    if "\<not> fst ` set em \<subseteq> set (letters (alphabet (domain gm)))"
    using that by (simp add: set_edge_map_eq GraphMap_eq)
  have 3: "\<exists>m. set_edge_map gm em = Inr (gm\<lparr>edge_map := m, vertex_map := None\<rparr>)
           \<and> GraphMap (domain gm) (codomain gm) em vm
               = Inr \<lparr>domain = domain gm, codomain = codomain gm, edge_map = m, vertex_map = vm\<rparr>
           \<and> dom m = fst ` set em \<union> ?i ` fst ` set em
           \<and> (\<forall>a. a \<notin> fst ` set em \<longrightarrow> ?i a \<notin> fst ` set em \<longrightarrow>
                 m a = None \<and> m (?i a) = None
                 \<and> image_letter (gm\<lparr>edge_map := m, vertex_map := None\<rparr>) a = Inl KeyError)"
    if inv: "involution ?i" and keys: "fst ` set em \<subseteq> set (letters (alphabet (domain gm)))"
  proof -
    have a: "set_edge_map gm em = Inr (gm\<lparr>edge_map := ?m, vertex_map := None\<rparr>)"
      using keys by (simp add: set_edge_map_eq store_edge_map_def)
    have b: "GraphMap (domain gm) (codomain gm) em vm
               = Inr \<lparr>domain = domain gm, codomain = codomain gm, edge_map = ?m, vertex_map = vm\<rparr>"
      using keys by (simp add: GraphMap_eq store_edge_map_def step)
    have c: "dom ?m = fst ` set em \<union> ?i ` fst ` set em"
      by (simp add: dom_fold_step WordMorphism_fst)
    have d: "?m a = None \<and> ?m (?i a) = None
             \<and> image_letter (gm\<lparr>edge_map := ?m, vertex_map := None\<rparr>) a = Inl KeyError"
      if na: "a \<notin> fst ` set em" and nia: "?i a \<notin> fst ` set em" for a
    proof -
      have "a \<notin> ?i ` fst ` set em"
      proof
        assume "a \<in> ?i ` fst ` set em"
        then obtain k where k: "k \<in> fst ` set em" "a = ?i k" by blast
        with inv have "?i a = k" by (simp add: involution_def)
        with k(1) nia show False by simp
      qed
      with na c have m1: "?m a = None" by blast
      have "?i a \<notin> ?i ` fst ` set em"
      proof
        assume "?i a \<in> ?i ` fst ` set em"
        then obtain k where k: "k \<in> fst ` set em" "?i a = ?i k" by blast
        from k(2) inv have "a = k" by (metis involution_def)
        with k(1) na show False by simp
      qed
      with nia c have m2: "?m (?i a) = None" by blast
      from m1 m2 show ?thesis by (simp add: image_letter_def)
    qed
    from a b c d show ?thesis by blast
  qed
  show ?thesis
  proof (intro conjI impI)
    show "set_edge_map gm em \<noteq> Inl MalformedEdgeMapError" by (rule 1)
  qed (use 1 2 3 in \<open>simp_all\<close>)
qed

theorem set_edge_map_stores_keys_witness:
  "involution (inverse_of (alphabet (domain ex_map)))
   \<and> fst ` set [(Pos CHR ''a'', [Pos CHR ''a''])] \<subseteq> set (letters (alphabet (domain ex_map)))
   \<and> set [Pos CHR ''a''] \<subseteq> set (letters (alphabet (codomain ex_map)))
   \<and> Pos CHR ''b'' \<in> set (positive_letters (alphabet (domain ex_map)))
   \<and> (\<exists>m. set_edge_map ex_map [(Pos CHR ''a'', [Pos CHR ''a''])]
             = Inr (ex_map\<lparr>edge_map := m, vertex_map := None\<rparr>)
          \<and> dom m = {Pos CHR ''a'', Neg CHR ''a''}
          \<and> m (Pos CHR ''b'') = None \<and> m (Neg CHR ''b'') = None
          \<and> image_letter (ex_map\<lparr>edge_map := m, vertex_map := None\<rparr>) (Pos CHR ''b'') = Inl KeyError)
   \<and> \<not> fst ` set [(Pos CHR ''c'', [Pos CHR ''a''])] \<subseteq> set (letters (alphabet (domain ex_map)))
   \<and> set_edge_map ex_map [(Pos CHR ''c'', [Pos CHR ''a''])] = Inl KeyError"
proof -
  have i: "involution (inverse_of (alphabet (domain ex_map)))"
    by (simp add: ex1 inverse_rose2 involution_formal_inverse)
  have k: "fst ` set [(Pos CHR ''a'', [Pos CHR ''a''])] \<subseteq> set (letters (alphabet (domain ex_map)))"
    and w: "\<forall>w \<in> snd ` set [(Pos CHR ''a'', [Pos CHR ''a''])]. set w \<subseteq> set (letters (alphabet (codomain ex_map)))"
    and w': "set [Pos CHR ''a''] \<subseteq> set (letters (alphabet (codomain ex_map)))"
    and p: "Pos CHR ''b'' \<in> set (positive_letters (alphabet (domain ex_map)))"
    and nk: "\<not> fst ` set [(Pos CHR ''c'', [Pos CHR ''a''])] \<subseteq> set (letters (alphabet (domain ex_map)))"
    by (simp_all add: ex1 letters_rose2 positive_rose2)
  note T = set_edge_map_stores_keys[of ex_map "[(Pos CHR ''a'', [Pos CHR ''a''])]" None]
  from mp[OF mp[OF mp[OF T[THEN conjunct2, THEN conjunct2, THEN conjunct2] i] k] w]
  obtain m where m: "set_edge_map ex_map [(Pos CHR ''a'', [Pos CHR ''a''])]
             = Inr (ex_map\<lparr>edge_map := m, vertex_map := None\<rparr>)"
    "dom m = fst ` set [(Pos CHR ''a'', [Pos CHR ''a''])]
              \<union> inverse_of (alphabet (domain ex_map)) ` fst ` set [(Pos CHR ''a'', [Pos CHR ''a''])]"
    "\<forall>a. a \<notin> fst ` set [(Pos CHR ''a'', [Pos CHR ''a''])] \<longrightarrow>
         inverse_of (alphabet (domain ex_map)) a \<notin> fst ` set [(Pos CHR ''a'', [Pos CHR ''a''])] \<longrightarrow>
                 m a = None \<and> m (inverse_of (alphabet (domain ex_map)) a) = None
                 \<and> image_letter (ex_map\<lparr>edge_map := m, vertex_map := None\<rparr>) a = Inl KeyError"
    by (elim exE conjE) (rule that)
  from m(2) have d: "dom m = {Pos CHR ''a'', Neg CHR ''a''}" by (auto simp: ex1 inverse_rose2)
  from m(3)[rule_format, of "Pos CHR ''b''"]
  have u: "m (Pos CHR ''b'') = None" "m (Neg CHR ''b'') = None"
    "image_letter (ex_map\<lparr>edge_map := m, vertex_map := None\<rparr>) (Pos CHR ''b'') = Inl KeyError"
    by (simp_all add: ex1 inverse_rose2)
  note T' = set_edge_map_stores_keys[of ex_map "[(Pos CHR ''c'', [Pos CHR ''a''])]" None]
  from mp[OF T'[THEN conjunct2, THEN conjunct2, THEN conjunct1] nk]
  have e: "set_edge_map ex_map [(Pos CHR ''c'', [Pos CHR ''a''])] = Inl KeyError" by (rule conjunct1)
  from m(1) d u have "\<exists>m. set_edge_map ex_map [(Pos CHR ''a'', [Pos CHR ''a''])]
             = Inr (ex_map\<lparr>edge_map := m, vertex_map := None\<rparr>)
          \<and> dom m = {Pos CHR ''a'', Neg CHR ''a''}
          \<and> m (Pos CHR ''b'') = None \<and> m (Neg CHR ''b'') = None
          \<and> image_letter (ex_map\<lparr>edge_map := m, vertex_map := None\<rparr>) (Pos CHR ''b'') = Inl KeyError"
    by (intro exI[where x = m]) simp
  with i k w' p nk e show ?thesis by (intro conjI)
qed

subsection \<open>C8: illegal turns and empty images\<close>

text \<open>
  C8. On the map of the rose that collapses \<open>a\<close>, the letters \<open>a\<close> and \<open>b\<close> form a turn
  of the domain, the image of \<open>a\<close> is empty, and \<open>illegal_turns\<close> on that turn raises
  \<open>IndexError\<close> (line 317 takes the first letter of both images) where the claim expects
  it to return the empty list.
\<close>

theorem illegal_turns_empty_image:
  "illegal_turns collapse_map [(Pos CHR ''a'', Pos CHR ''b'')] = Inl IndexError
   \<and> illegal_turns collapse_map [(Pos CHR ''b'', Pos CHR ''a'')] = Inl IndexError
   \<and> (Pos CHR ''a'', Pos CHR ''b'') \<in> set (turns (domain collapse_map))
   \<and> image_letter collapse_map (Pos CHR ''a'') = Inr []
   \<and> image_letter collapse_map (Pos CHR ''b'') = Inr [Pos CHR ''b'']"
  by code_simp

subsection \<open>C2: folding\<close>

text \<open>
  C2. \<open>folding\<close> fails on every graph map when the name \<open>A\<close> of lines 329, 342 and 354 is
  bound nowhere, as in the module itself: \<open>NameError\<close>. Where \<open>A\<close> is bound to the letters
  of the domain, it fails with \<open>IndexError\<close> on the map of the rose that collapses \<open>a\<close>,
  whatever the graph's \<open>fold\<close> does and in whatever order \<open>list(set(edge_list))\<close> lists
  the letters: the first call of \<open>illegal_turns\<close> meets a turn with an empty image.
\<close>

theorem folding_fails:
  "folding_map N fold_edges list_of_set None gm = Some (Inl NameError)
   \<and> folding_map ex_names fold_edges list_of_set (Some (letters (alphabet (domain collapse_map))))
         collapse_map
       = Some (Inl IndexError)"
proof -
  have d: "domain collapse_map = rose2"
    using GraphMap_fields[OF collapse_map_built] by simp
  have i: "image_letter collapse_map (Pos CHR ''a'') = Inr []" "image_letter collapse_map (Pos CHR ''b'') = Inr [Pos CHR ''b'']"
    "image_letter collapse_map (Neg CHR ''a'') = Inr []" "image_letter collapse_map (Neg CHR ''b'') = Inr [Neg CHR ''b'']"
    by code_simp+
  have s: "folding_subdivide ex_names (letters (alphabet rose2)) collapse_map = Inr collapse_map"
    using i by (simp add: letters_def rose2_def)
  have t: "illegal_turns collapse_map (turns rose2) = Inl IndexError" by code_simp
  show ?thesis by (simp add: folding_map_def d s t)
qed

subsection \<open>C6: the vertex map computed on demand\<close>

lemma vertex_map_loop_dom:
  "\<forall>e \<in> set es. edge_map gm e \<noteq> None \<Longrightarrow>
   \<exists>vm'. vertex_map_loop gm es vm = Inr vm' \<and> dom vm' = dom vm \<union> \<Union> (letter_endpoints gm ` set es)"
proof (induction es arbitrary: vm)
  case Nil
  then show ?case by simp
next
  case step: (Cons e es)
  then obtain p where p: "edge_map gm e = Some p" by auto
  from step.prems have rest: "\<forall>e \<in> set es. edge_map gm e \<noteq> None" by simp
  show ?case
  proof (cases p)
    case Nil
    with p step.IH[OF rest, of vm] show ?thesis by (simp add: image_letter_def letter_endpoints_def)
  next
    case (Cons x u)
    define vm1 where "vm1 = (vm(initial_vertex (domain gm) e \<mapsto> initial_vertex (codomain gm) (hd p)))
                     (terminal_vertex (domain gm) e \<mapsto> terminal_vertex (codomain gm) (last p))"
    from step.IH[OF rest, of vm1] obtain vm' where
      l: "vertex_map_loop gm es vm1 = Inr vm'" and d: "dom vm' = dom vm1 \<union> \<Union> (letter_endpoints gm ` set es)"
      by auto
    have "vertex_map_loop gm (e # es) vm = Inr vm'"
      using p Cons l by (simp add: image_letter_def vm1_def)
    moreover have "dom vm' = dom vm \<union> \<Union> (letter_endpoints gm ` set (e # es))"
      using d p Cons by (auto simp: vm1_def letter_endpoints_def)
    ultimately show ?thesis by blast
  qed
qed

lemma map_sum_Inl: "map_sum id f x = Inl e \<Longrightarrow> x = Inl e"
  by (cases x) auto

text \<open>
  C6, amended. Where every positive letter of the domain has a stored image,
  \<open>update_vertex_map\<close> does not fail: it stores a partial vertex map, defined exactly on the
  initial and terminal vertices of the positive letters with a nonempty image. Applying the
  graph map to a domain vertex, with no vertex map cached, returns the value of that map at
  the vertex when it has one and raises \<open>KeyError\<close> at the lookup when it has none.
\<close>

theorem vertex_map_partial:
  assumes "\<forall>e \<in> set (positive_letters (alphabet (domain gm))). edge_map gm e \<noteq> None"
  shows "\<exists>vm. update_vertex_map gm = Inr (gm\<lparr>vertex_map := Some vm\<rparr>) \<and> dom vm = endpoints gm
           \<and> (vertex_map gm = None \<longrightarrow> has_vertex (domain gm) v \<longrightarrow>
                call gm (Vertex v)
                  = (if v \<in> endpoints gm
                     then Inr (Vertex (the (vm v)), gm\<lparr>vertex_map := Some vm\<rparr>)
                     else Inl KeyError))"
proof -
  from vertex_map_loop_dom[OF assms, of Map.empty] obtain vm where
    vm: "vertex_map_loop gm (positive_letters (alphabet (domain gm))) Map.empty = Inr vm"
    and d: "dom vm = endpoints gm"
    by (auto simp: endpoints_def)
  have u: "update_vertex_map gm = Inr (gm\<lparr>vertex_map := Some vm\<rparr>)"
    by (simp add: update_vertex_map_def vm)
  have "call gm (Vertex v) = (if v \<in> endpoints gm
                     then Inr (Vertex (the (vm v)), gm\<lparr>vertex_map := Some vm\<rparr>)
                     else Inl KeyError)"
    if "vertex_map gm = None" "has_vertex (domain gm) v"
    using that u d by (auto simp: call_vertex_def domIff split: option.splits)
  then have "vertex_map gm = None \<longrightarrow> has_vertex (domain gm) v \<longrightarrow>
                call gm (Vertex v)
                  = (if v \<in> endpoints gm
                     then Inr (Vertex (the (vm v)), gm\<lparr>vertex_map := Some vm\<rparr>)
                     else Inl KeyError)" by blast
  with u d have "update_vertex_map gm = Inr (gm\<lparr>vertex_map := Some vm\<rparr>) \<and> dom vm = endpoints gm
           \<and> (vertex_map gm = None \<longrightarrow> has_vertex (domain gm) v \<longrightarrow>
                call gm (Vertex v)
                  = (if v \<in> endpoints gm
                     then Inr (Vertex (the (vm v)), gm\<lparr>vertex_map := Some vm\<rparr>)
                     else Inl KeyError))" by (intro conjI)
  then show ?thesis by (intro exI[where x = vm])
qed

text \<open>
  C6, as stated, fails: in the path whose second edge is collapsed, vertex 2 has no incident
  edge with a nonempty image, yet \<open>update_vertex_map\<close> succeeds, applying the map to
  vertex 0 returns vertex 0, and applying it to vertex 2 raises \<open>KeyError\<close>.
\<close>

theorem vertex_map_partial_counterexample:
  "has_vertex (domain path_map) 2 \<and> vertex_map path_map = None
   \<and> call path_map (Vertex 2) = Inl KeyError
   \<and> \<not> isl (update_vertex_map path_map)
   \<and> map_sum id fst (call path_map (Vertex 0)) = Inr (Vertex 0)
   \<and> image_letter path_map (Pos CHR ''b'') = Inr []"
proof -
  have "map_sum id fst (call path_map (Vertex 2)) = Inl KeyError" by code_simp
  then have "call path_map (Vertex 2) = Inl KeyError" by (rule map_sum_Inl)
  moreover have "has_vertex (domain path_map) 2 \<and> vertex_map path_map = None
   \<and> \<not> isl (update_vertex_map path_map)
   \<and> map_sum id fst (call path_map (Vertex 0)) = Inr (Vertex 0)
   \<and> image_letter path_map (Pos CHR ''b'') = Inr []"
    by code_simp
  ultimately show ?thesis by simp
qed

theorem vertex_map_partial_witness:
  "positive_letters (alphabet (domain path_map)) = [Pos CHR ''a'', Pos CHR ''b'']
   \<and> edge_map path_map (Pos CHR ''a'') = Some [Pos CHR ''a'']
   \<and> edge_map path_map (Pos CHR ''b'') = Some []
   \<and> endpoints path_map = {0, 1} \<and> vertex_map path_map = None \<and> has_vertex (domain path_map) 2
   \<and> has_vertex (domain path_map) 1
   \<and> call path_map (Vertex 2) = Inl KeyError
   \<and> (\<exists>vm. call path_map (Vertex 1) = Inr (Vertex 0, path_map\<lparr>vertex_map := Some vm\<rparr>))"
proof -
  have d: "domain path_map = path3" "codomain path_map = rose2" "vertex_map path_map = None"
    using GraphMap_fields[OF path_map_built] by simp_all
  have e: "edge_map path_map (Pos CHR ''a'') = Some [Pos CHR ''a'']" "edge_map path_map (Pos CHR ''b'') = Some []"
    by code_simp+
  have a: "\<forall>e \<in> set (positive_letters (alphabet (domain path_map))). edge_map path_map e \<noteq> None"
    by (simp add: d path3_def e)
  have ep: "endpoints path_map = {0, 1}"
    by (auto simp add: endpoints_def letter_endpoints_def d e path3_def terminal_vertex_def)
  have h: "has_vertex (domain path_map) 2" "has_vertex (domain path_map) 1"
    by (simp_all add: d has_vertex_def path3_def)
  have c: "map_sum id fst (call path_map (Vertex 1)) = Inr (Vertex 0)" by code_simp
  have p: "positive_letters (alphabet (domain path_map)) = [Pos CHR ''a'', Pos CHR ''b'']"
    by (simp add: d path3_def)
  from vertex_map_partial[OF a, of 2] obtain vm2 where
    "vertex_map path_map = None \<longrightarrow> has_vertex (domain path_map) 2 \<longrightarrow>
       call path_map (Vertex 2)
         = (if 2 \<in> endpoints path_map
            then Inr (Vertex (the (vm2 2)), path_map\<lparr>vertex_map := Some vm2\<rparr>)
            else Inl KeyError)"
    by (elim exE conjE) (rule that)
  with d(3) h(1) ep have c2: "call path_map (Vertex 2) = Inl KeyError" by simp
  from vertex_map_partial[OF a, of 1] obtain vm1 where
    "vertex_map path_map = None \<longrightarrow> has_vertex (domain path_map) 1 \<longrightarrow>
       call path_map (Vertex 1)
         = (if 1 \<in> endpoints path_map
            then Inr (Vertex (the (vm1 1)), path_map\<lparr>vertex_map := Some vm1\<rparr>)
            else Inl KeyError)"
    by (elim exE conjE) (rule that)
  with d(3) h(2) ep have
    c1: "call path_map (Vertex 1) = Inr (Vertex (the (vm1 1)), path_map\<lparr>vertex_map := Some vm1\<rparr>)"
    by simp
  with c have "the (vm1 1) = 0" by simp
  with c1 have "\<exists>vm. call path_map (Vertex 1) = Inr (Vertex 0, path_map\<lparr>vertex_map := Some vm\<rparr>)"
    by (intro exI[where x = vm1]) simp
  with p e ep d(3) h c2 show ?thesis by simp
qed

subsection \<open>C9: subdividing an edge with an image of length two\<close>

lemma fold_step_other:
  assumes inv: "involution (inverse_of (alphabet (domain gm)))"
  shows "a \<notin> fst ` set em \<Longrightarrow> inverse_of (alphabet (domain gm)) a \<notin> fst ` set em
    \<Longrightarrow> fold (set_edge_map_step gm) em m a = m a"
proof (induction em arbitrary: m)
  case (Cons kv em)
  let ?i = "inverse_of (alphabet (domain gm))"
  from Cons.prems have k: "fst kv \<noteq> a" "fst kv \<noteq> ?i a" by auto
  from k(2) inv have "?i (fst kv) \<noteq> a" by (metis involution_def)
  with k(1) have "set_edge_map_step gm kv m a = m a"
    by (simp add: set_edge_map_step_def Let_def)
  with Cons show ?case by simp
qed simp

lemma set_edge_map_lookup:
  assumes ok: "inverses_ok (domain gm) (codomain gm)"
    and d: "distinct (map fst em)" and a: "map_of em a = Some w"
    and na: "inverse_of (alphabet (domain gm)) a \<notin> fst ` set em"
  shows "edge_map (store_edge_map gm em) a = Some (reduce_path (codomain gm) w)"
proof -
  let ?i = "inverse_of (alphabet (domain gm))"
  from ok have inv: "involution ?i" and nf: "?i a \<noteq> a" by (simp_all add: inverses_ok_def)
  have "fold (set_edge_map_step gm) es m a = Some (reduce_path (codomain gm) w)"
    if "distinct (map fst es)" "map_of es a = Some w" "?i a \<notin> fst ` set es" for m es
    using that
  proof (induction es arbitrary: m)
    case (Cons kv es)
    show ?case
    proof (cases "fst kv = a")
      case True
      with Cons.prems have w: "snd kv = w" and r: "a \<notin> fst ` set es" by auto
      from Cons.prems have r': "?i a \<notin> fst ` set es" by simp
      have "set_edge_map_step gm kv m a = Some (reduce_path (codomain gm) w)"
        using True w nf by (simp add: set_edge_map_step_def Let_def)
      with fold_step_other[OF inv r r'] show ?thesis by simp
    next
      case False
      with Cons.prems have "map_of es a = Some w" "distinct (map fst es)" "?i a \<notin> fst ` set es"
        by (auto split: if_splits)
      from Cons.IH[OF this(2) this(1) this(3)] show ?thesis by simp
    qed
  qed simp
  from this[OF WordMorphism_distinct, of em] a na show ?thesis
    by (simp add: store_edge_map_def WordMorphism_map_of WordMorphism_fst)
qed

lemma image_dict_map_of:
  "image_dict g as d0 = Inr d1 \<Longrightarrow> k \<notin> set as \<Longrightarrow> map_of d1 k = map_of d0 k"
proof (induction as arbitrary: d0)
  case (Cons a as)
  then show ?case by (auto simp: AList.update_conv' split: sum.splits)
qed simp

lemma image_dict_distinct:
  "image_dict g as d0 = Inr d1 \<Longrightarrow> distinct (map fst d0) \<Longrightarrow> distinct (map fst d1)"
proof (induction as arbitrary: d0)
  case (Cons a as)
  then show ?case by (auto simp: AList.distinct_update split: sum.splits)
qed simp

lemma image_dict_total:
  "\<forall>a \<in> set as. \<not> isl (g a) \<Longrightarrow> \<exists>d1. image_dict g as d0 = Inr d1"
proof (induction as arbitrary: d0)
  case (Cons a as)
  then obtain w where "g a = Inr w" by (cases "g a") auto
  with Cons show ?case by simp
qed simp

lemma map_of_singletons: "a \<in> set ls \<Longrightarrow> map_of (map (\<lambda>a. (a, [a])) ls) a = Some [a]"
  by (induction ls) auto

text \<open>
  C9. Let \<open>e\<close> be a positive letter of the domain whose stored image is the reduced word
  \<open>[c, c']\<close>, in a graph map whose positive letters all have a stored image, and let the
  graph choose the new letter \<open>f\<close> and the new vertex \<open>v'\<close>. Then \<open>subdivide_domain\<close>
  returns, and afterwards the domain has one more vertex, \<open>v'\<close>, and one more positive
  letter, \<open>f\<close>; \<open>e\<close> starts where it did and ends at \<open>v'\<close>; \<open>f\<close> runs from \<open>v'\<close> to
  the former terminal vertex of \<open>e\<close>; the images of \<open>e\<close> and \<open>f\<close> are \<open>[c]\<close> and
  \<open>[c']\<close>; the returned map sends \<open>e\<close> to the path \<open>ef\<close>, and the image of that path is
  \<open>[c, c']\<close>.
\<close>

theorem subdivide_length_two:
  assumes ok: "inverses_ok (domain gm) (codomain gm)"
    and dist: "distinct (letters (alphabet (domain gm)))"
    and e: "e \<in> set (positive_letters (alphabet (domain gm)))"
    and img: "edge_map gm e = Some [c, c']"
    and red: "c' \<noteq> inverse_of (alphabet (codomain gm)) c"
    and total: "\<forall>a \<in> set (positive_letters (alphabet (domain gm))). edge_map gm a \<noteq> None"
    and f: "new_letter_names N (letters (alphabet (domain gm))) 1 = [f]"
    and f_new: "f \<notin> set (letters (alphabet (domain gm)))"
    and ff_new: "inverse_of (alphabet (domain gm)) f \<notin> set (letters (alphabet (domain gm)))"
    and v: "new_vertex_names N (vertices (domain gm)) 1 = [v']"
    and v_new: "v' \<notin> set (vertices (domain gm))"
    and v2: "terminal_vertex (domain gm) e \<in> set (vertices (domain gm))"
  shows "\<exists>gm' rm. subdivide_domain N gm e = Inr (gm', rm)
      \<and> vertices (domain gm') = vertices (domain gm) @ [v']
      \<and> positive_letters (alphabet (domain gm')) = positive_letters (alphabet (domain gm)) @ [f]
      \<and> initial_vertex (domain gm') e = initial_vertex (domain gm) e
      \<and> terminal_vertex (domain gm') e = v'
      \<and> initial_vertex (domain gm') f = v'
      \<and> terminal_vertex (domain gm') f = terminal_vertex (domain gm) e
      \<and> edge_map gm' e = Some [c] \<and> edge_map gm' f = Some [c']
      \<and> map_of rm e = Some [e, f]
      \<and> call_path gm' [e, f] = Inr [c, c']"
proof -
  let ?D = "domain gm"
  let ?A = "alphabet ?D"
  let ?i = "inverse_of ?A"
  let ?pos = "positive_letters ?A"
  let ?vt = "terminal_vertex ?D e"
  from ok have inv: "\<And>x. ?i (?i x) = x" and nf: "\<And>x. ?i x \<noteq> x"
    by (simp_all add: inverses_ok_def involution_def)
  have e_l: "e \<in> set (letters ?A)" and ie_l: "?i e \<in> set (letters ?A)"
    using e by (auto simp: letters_def)
  have ie_pos: "?i e \<notin> set ?pos" using dist e by (auto simp: letters_def)
  have ef: "e \<noteq> f" "?i e \<noteq> f" "e \<noteq> ?i f" "?i e \<noteq> ?i f" "f \<noteq> ?i f"
    using e_l ie_l f_new ff_new nf[of f] inv[of e] inv[of f] by metis+
  have f_pos: "f \<notin> set ?pos" "?i f \<notin> set ?pos" using f_new ff_new by (auto simp: letters_def)
  \<comment> \<open>the alphabet with the new letter, the new vertex\<close>
  define A1 where "A1 = ?A\<lparr>positive_letters := ?pos @ [f]\<rparr>"
  define G0 where "G0 = ?D\<lparr>alphabet := A1\<rparr>"
  have AN: "add_new_letters N ?A (Suc 0) = (A1, [(f, ?i f)])"
    using f by (simp add: add_new_letters_def Let_def A1_def)
  have vs: "new_vertices N G0 (Suc 0) = [v']"
    using v by (simp add: new_vertices_def G0_def)
  \<comment> \<open>the one turn of the loop\<close>
  define rm0 where "rm0 = map (\<lambda>a. (a, [a])) (letters ?A)"
  define rm1 where "rm1 = AList.update e [e, f] rm0"
  define rm where "rm = AList.update (?i e) [?i f, ?i e] rm1"
  define G1 where "G1 = add_edge (set_terminal_vertex G0 e v') v' (terminal_vertex G0 e) (f, ?i f)"
  define s0 where "s0 = \<lparr>sub_graph = G0, sub_result_map = rm0, sub_d = [], sub_prev = e\<rparr>"
  define s1 where "s1 = \<lparr>sub_graph = G1, sub_result_map = rm, sub_d = [(f, [c'])], sub_prev = f\<rparr>"
  have r0: "map_of rm0 e = Some [e]" "map_of rm0 (?i e) = Some [?i e]"
    unfolding rm0_def using e_l ie_l by (simp_all add: map_of_singletons)
  have r1: "map_of rm1 (?i e) = Some [?i e]"
    unfolding rm1_def using r0 nf[of e] by (simp add: AList.update_conv')
  have iG0: "inverse_of (alphabet G0) = ?i" by (simp add: G0_def A1_def)
  have il: "inverse_letter (alphabet G0) e = Inr (?i e)"
    using e by (simp add: inverse_letter_def G0_def A1_def letters_def)
  have edge: "subdivide_edge e [c, c'] [v'] 0 (f, ?i f) s0 = Inr s1"
    unfolding subdivide_edge_def s0_def s1_def
    by (simp add: Let_def il iG0 r0 r1[unfolded rm1_def] rm1_def rm_def G1_def)
  have loop: "subdivide_loop e [c, c'] [v'] 0 [(f, ?i f)] s0 = Inr s1"
    by (simp add: edge)
  \<comment> \<open>the update of the edge map\<close>
  have posG1: "positive_letters (alphabet G1) = ?pos @ [f]"
    by (simp add: G1_def alphabet_add_edge alphabet_set_terminal_vertex G0_def A1_def)
  define ps where "ps = filter (\<lambda>a. a \<noteq> e) ?pos"
  have ps: "filter (\<lambda>a. a \<noteq> f \<and> a \<noteq> ?i f \<and> a \<noteq> e) (positive_letters (alphabet G1)) = ps"
  proof -
    have "filter (\<lambda>a. a \<noteq> f \<and> a \<noteq> ?i f \<and> a \<noteq> e) ?pos = filter (\<lambda>a. a \<noteq> e) ?pos"
      using f_pos by (intro filter_cong) auto
    then show ?thesis by (simp add: posG1 ps_def)
  qed
  have "\<forall>a \<in> set ps. \<not> isl (image_letter gm a)"
    using total by (auto simp: ps_def image_letter_def split: option.splits)
  from image_dict_total[OF this] obtain d1 where
    d1: "image_dict (image_letter gm) ps [(f, [c']), (e, [c])] = Inr d1" by blast
  define gm' where "gm' = store_edge_map (gm\<lparr>domain := G1\<rparr>) d1"
  have "fst ` set d1 \<subseteq> set (letters (alphabet G1))"
    using image_dict_keys[OF d1] e by (auto simp: letters_def posG1 ps_def)
  then have se: "set_edge_map (gm\<lparr>domain := G1\<rparr>) d1 = Inr gm'"
    by (simp add: set_edge_map_eq gm'_def)
  have upd: "subdivide_update gm e [c, c'] [(f, ?i f)] s1 = Inr (gm', rm)"
    unfolding subdivide_update_def
    using ef(1) by (simp add: s1_def ps d1 se)
  have word: "subdivide_word N gm e [c, c'] = Inr (gm', rm)"
    unfolding subdivide_word_def
    by (simp add: Let_def AN G0_def[symmetric] vs rm0_def[symmetric] s0_def[symmetric] edge upd)
  have sd: "subdivide_domain N gm e = Inr (gm', rm)"
    unfolding subdivide_domain_def by (simp add: image_letter_def img word)
  \<comment> \<open>the graph after the subdivision\<close>
  have dom': "domain gm' = G1" and cod': "codomain gm' = codomain gm"
    by (simp_all add: gm'_def store_edge_map_def)
  have vtG0: "terminal_vertex G0 e = ?vt"
    by (simp add: terminal_vertex_def G0_def A1_def)
  have vert: "vertices G1 = vertices ?D @ [v']"
    unfolding G1_def vtG0 using v_new v2
    by (simp add: add_edge_def add_vertex_def set_terminal_vertex_def G0_def)
  have init: "initial_vertex G1 = ((initial_vertex ?D)(?i e := v'))(f := v', ?i f := ?vt)"
    unfolding G1_def vtG0
    by (simp add: add_edge_def add_vertex_def set_terminal_vertex_def G0_def A1_def)
  have iG1: "inverse_of (alphabet G1) = ?i"
    by (simp add: G1_def alphabet_add_edge alphabet_set_terminal_vertex iG0)
  have g1: "initial_vertex G1 e = initial_vertex ?D e" using ef nf[of e] by (simp add: init)
  have g2: "terminal_vertex G1 e = v'" using ef by (simp add: terminal_vertex_def iG1 init)
  have g3: "initial_vertex G1 f = v'" using ef by (simp add: init)
  have g4: "terminal_vertex G1 f = ?vt" by (simp add: terminal_vertex_def iG1 init)
  \<comment> \<open>the edge map after the subdivision\<close>
  have ok': "inverses_ok (domain (gm\<lparr>domain := G1\<rparr>)) (codomain (gm\<lparr>domain := G1\<rparr>))"
    using ok by (simp add: inverses_ok_def iG1)
  have dd: "distinct (map fst d1)"
    using image_dict_distinct[OF d1] ef(1) by simp
  have keys: "fst ` set d1 = {f, e} \<union> set ps"
    using image_dict_keys[OF d1] by auto
  have e_ps: "e \<notin> set ps" and f_ps: "f \<notin> set ps" using f_pos by (simp_all add: ps_def)
  have me: "map_of d1 e = Some [c]" using image_dict_map_of[OF d1 e_ps] ef(1) by simp
  have mf: "map_of d1 f = Some [c']" using image_dict_map_of[OF d1 f_ps] by simp
  have ne: "inverse_of (alphabet (domain (gm\<lparr>domain := G1\<rparr>))) e \<notin> fst ` set d1"
    using ie_pos ef nf[of e] by (auto simp: iG1 keys ps_def)
  have nff: "inverse_of (alphabet (domain (gm\<lparr>domain := G1\<rparr>))) f \<notin> fst ` set d1"
    using f_pos ef by (auto simp: iG1 keys ps_def)
  have ee: "edge_map gm' e = Some [c]"
    using set_edge_map_lookup[OF ok' dd me ne]
    by (simp add: gm'_def reduce_path_def reduce_cons_def)
  have eff: "edge_map gm' f = Some [c']"
    using set_edge_map_lookup[OF ok' dd mf nff]
    by (simp add: gm'_def reduce_path_def reduce_cons_def)
  have rme: "map_of rm e = Some [e, f]"
    using nf[of e] by (simp add: rm_def rm1_def AList.update_conv')
  have cp: "call_path gm' [e, f] = Inr [c, c']"
    using red by (simp add: call_path_def ee eff cod' reduce_path_def reduce_cons_def)
  from sd vert posG1 g1 g2 g3 g4 ee eff rme cp
  have "subdivide_domain N gm e = Inr (gm', rm)
      \<and> vertices (domain gm') = vertices (domain gm) @ [v']
      \<and> positive_letters (alphabet (domain gm')) = positive_letters (alphabet (domain gm)) @ [f]
      \<and> initial_vertex (domain gm') e = initial_vertex (domain gm) e
      \<and> terminal_vertex (domain gm') e = v'
      \<and> initial_vertex (domain gm') f = v'
      \<and> terminal_vertex (domain gm') f = terminal_vertex (domain gm) e
      \<and> edge_map gm' e = Some [c] \<and> edge_map gm' f = Some [c']
      \<and> map_of rm e = Some [e, f]
      \<and> call_path gm' [e, f] = Inr [c, c']"
    by (simp add: dom')
  then show ?thesis by (intro exI[where x = gm'] exI[where x = rm])
qed

theorem subdivide_length_two_witness:
  "inverses_ok (domain ex_map) (codomain ex_map)
   \<and> distinct (letters (alphabet (domain ex_map)))
   \<and> positive_letters (alphabet (domain ex_map)) = [Pos CHR ''a'', Pos CHR ''b'']
   \<and> edge_map ex_map (Pos CHR ''a'') = Some [Pos CHR ''a'', Pos CHR ''b'']
   \<and> edge_map ex_map (Pos CHR ''b'') = Some [Pos CHR ''b'']
   \<and> Pos CHR ''b'' \<noteq> inverse_of (alphabet (codomain ex_map)) (Pos CHR ''a'')
   \<and> new_letter_names ex_names (letters (alphabet (domain ex_map))) 1 = [Pos CHR ''c'']
   \<and> new_vertex_names ex_names (vertices (domain ex_map)) 1 = [1]
   \<and> vertices (domain ex_map) = [0]
   \<and> terminal_vertex (domain ex_map) (Pos CHR ''a'') = 0
   \<and> (\<exists>gm' rm. subdivide_domain ex_names ex_map (Pos CHR ''a'') = Inr (gm', rm)
      \<and> vertices (domain gm') = [0, 1]
      \<and> positive_letters (alphabet (domain gm')) = [Pos CHR ''a'', Pos CHR ''b'', Pos CHR ''c'']
      \<and> initial_vertex (domain gm') (Pos CHR ''a'') = 0
      \<and> terminal_vertex (domain gm') (Pos CHR ''a'') = 1
      \<and> initial_vertex (domain gm') (Pos CHR ''c'') = 1
      \<and> terminal_vertex (domain gm') (Pos CHR ''c'') = 0
      \<and> edge_map gm' (Pos CHR ''a'') = Some [Pos CHR ''a'']
      \<and> edge_map gm' (Pos CHR ''c'') = Some [Pos CHR ''b'']
      \<and> map_of rm (Pos CHR ''a'') = Some [Pos CHR ''a'', Pos CHR ''c'']
      \<and> call_path gm' [Pos CHR ''a'', Pos CHR ''c''] = Inr [Pos CHR ''a'', Pos CHR ''b''])"
proof -
  have ok: "inverses_ok (domain ex_map) (codomain ex_map)" by (simp add: ex1 inverses_ok_rose2)
  have h: "distinct (letters (alphabet (domain ex_map)))"
    "positive_letters (alphabet (domain ex_map)) = [Pos CHR ''a'', Pos CHR ''b'']"
    "edge_map ex_map (Pos CHR ''a'') = Some [Pos CHR ''a'', Pos CHR ''b'']"
    "edge_map ex_map (Pos CHR ''b'') = Some [Pos CHR ''b'']"
    "Pos CHR ''b'' \<noteq> inverse_of (alphabet (codomain ex_map)) (Pos CHR ''a'')"
    "new_letter_names ex_names (letters (alphabet (domain ex_map))) 1 = [Pos CHR ''c'']"
    "new_vertex_names ex_names (vertices (domain ex_map)) 1 = [1]"
    "vertices (domain ex_map) = [0]"
    "terminal_vertex (domain ex_map) (Pos CHR ''a'') = 0"
    "Pos CHR ''c'' \<notin> set (letters (alphabet (domain ex_map)))"
    "inverse_of (alphabet (domain ex_map)) (Pos CHR ''c'') \<notin> set (letters (alphabet (domain ex_map)))"
    "initial_vertex (domain ex_map) (Pos CHR ''a'') = 0"
    by code_simp+
  have e: "Pos CHR ''a'' \<in> set (positive_letters (alphabet (domain ex_map)))"
    and t: "\<forall>a \<in> set (positive_letters (alphabet (domain ex_map))). edge_map ex_map a \<noteq> None"
    and n: "(1::nat) \<notin> set (vertices (domain ex_map))"
    and v2: "terminal_vertex (domain ex_map) (Pos CHR ''a'') \<in> set (vertices (domain ex_map))"
    by (simp_all add: h)
  from subdivide_length_two[OF ok h(1) e h(3) h(5) t h(6) h(10) h(11) h(7) n v2]
  show ?thesis using ok h by simp
qed

subsection \<open>C4: tighten at its fixed point\<close>

lemma paired_update:
  assumes inv: "involution (inverse_of (alphabet G))" and nf: "\<forall>x. inverse_of (alphabet G) x \<noteq> x"
    and J: "dict_consistent G em" and a: "a \<in> fst ` set em"
    and u: "is_reduced (inverse_of (alphabet G)) u"
  shows "dict_consistent G (AList.update (inverse_of (alphabet G) a) (reverse_path G u) (AList.update a u em))
       \<and> map fst (AList.update (inverse_of (alphabet G) a) (reverse_path G u) (AList.update a u em)) = map fst em"
proof -
  let ?i = "inverse_of (alphabet G)"
  let ?em = "AList.update (?i a) (reverse_path G u) (AList.update a u em)"
  from J a have ia: "?i a \<in> fst ` set em"
    unfolding dict_consistent_def by (metis domI dom_map_of_conv_image_fst)
  have keys: "map fst ?em = map fst em" using a ia by (simp add: AList.update_keys)
  have m: "map_of ?em = (map_of em)(a \<mapsto> u, ?i a \<mapsto> reverse_path G u)"
    by (simp add: AList.update_conv')
  have ii: "\<And>x. ?i (?i x) = x" using inv by (simp add: involution_def)
  have na: "a \<noteq> ?i a" using nf by metis
  have d: "distinct (map fst ?em)" using J keys by (simp add: dict_consistent_def)
  have "\<exists>w. map_of ?em b = Some w \<and> is_reduced ?i w \<and> map_of ?em (?i b) = Some (reverse_path G w)"
    if b: "b \<in> fst ` set ?em" for b
  proof -
    from b keys have b': "b \<in> fst ` set em" by (metis set_map)
    show ?thesis
    proof (cases "b = a")
      case True
      with na show ?thesis using u by (simp add: m)
    next
      case ba: False
      show ?thesis
      proof (cases "b = ?i a")
        case True
        with na show ?thesis
          using u ii is_reduced_reverse_path[OF inv u] reverse_reverse[OF inv] by (simp add: m)
      next
        case False
        then have "?i b \<noteq> a" using ii by metis
        moreover have "?i b \<noteq> ?i a" using ba ii by metis
        moreover from J b' obtain w where "map_of em b = Some w" "is_reduced ?i w"
          "map_of em (?i b) = Some (reverse_path G w)"
          unfolding dict_consistent_def by blast
        ultimately show ?thesis using ba False by (simp add: m)
      qed
    qed
  qed
  with d keys show ?thesis unfolding dict_consistent_def by blast
qed

lemma rev_map_drop: "take (length u - k) (rev (map f u)) = rev (map f (drop k u))"
proof -
  have "rev (drop k (map f u)) = take (length (map f u) - k) (rev (map f u))" by (rule rev_drop)
  then show ?thesis by (simp add: drop_map)
qed

lemma tighten_strip_letter_consistent:
  assumes inv: "involution (inverse_of (alphabet G))" and nf: "\<forall>x. inverse_of (alphabet G) x \<noteq> x"
    and J: "dict_consistent G (fst s)"
    and pr: "\<forall>v p. prefix v = Some p \<longrightarrow> is_reduced (inverse_of (alphabet G)) p"
    and step: "tighten_strip_letter G prefix a s = Inr s'"
  shows "dict_consistent G (fst s') \<and> map fst (fst s') = map fst (fst s)"
proof (cases "\<exists>pv. prefix (initial_vertex G a) = Some pv \<and> pv \<noteq> []")
  case False
  with step have "s' = s"
    by (auto simp: tighten_strip_letter_def split: option.splits if_splits)
  with J show ?thesis by simp
next
  case True
  let ?i = "inverse_of (alphabet G)"
  from True obtain pv where pv: "prefix (initial_vertex G a) = Some pv" "pv \<noteq> []" by blast
  from pr pv have rp: "is_reduced ?i pv" by blast
  from step pv obtain u where u: "map_of (fst s) a = Some u"
    by (auto simp: tighten_strip_letter_def Let_def split: option.splits)
  then have a: "a \<in> fst ` set (fst s)" by (metis domI dom_map_of_conv_image_fst)
  with J u have ru: "is_reduced ?i u" and w: "map_of (fst s) (?i a) = Some (reverse_path G u)"
    by (auto simp: dict_consistent_def)
  show ?thesis
  proof (cases "u = []")
    case True
    with step pv u have "fst s' = AList.update (?i a) pv (AList.update a (reverse_path G pv) (fst s))"
      by (auto simp: tighten_strip_letter_def Let_def)
    then have "fst s' = AList.update (?i a) (reverse_path G (reverse_path G pv))
                 (AList.update a (reverse_path G pv) (fst s))"
      by (simp add: reverse_reverse[OF inv])
    with paired_update[OF inv nf J a is_reduced_reverse_path[OF inv rp]] show ?thesis by simp
  next
    case False
    have "map_of (AList.update a (drop (length pv) u) (fst s)) (?i a) = Some (reverse_path G u)"
      using w nf by (simp add: AList.update_conv')
    with step pv u False have "fst s' = AList.update (?i a)
          (take (length (reverse_path G u) - length pv) (reverse_path G u))
          (AList.update a (drop (length pv) u) (fst s))"
      by (auto simp: tighten_strip_letter_def Let_def)
    moreover have "take (length (reverse_path G u) - length pv) (reverse_path G u)
        = reverse_path G (drop (length pv) u)"
      using rev_map_drop[of u "length pv" ?i] by (simp add: reverse_path_def)
    ultimately have "fst s' = AList.update (?i a) (reverse_path G (drop (length pv) u))
          (AList.update a (drop (length pv) u) (fst s))" by simp
    with paired_update[OF inv nf J a is_reduced_drop[OF ru]] show ?thesis by simp
  qed
qed

lemma tighten_strip_consistent:
  assumes inv: "involution (inverse_of (alphabet G))" and nf: "\<forall>x. inverse_of (alphabet G) x \<noteq> x"
    and pr: "\<forall>v p. prefix v = Some p \<longrightarrow> is_reduced (inverse_of (alphabet G)) p"
  shows "dict_consistent G (fst s) \<Longrightarrow> tighten_strip G prefix as s = Inr s'
    \<Longrightarrow> dict_consistent G (fst s') \<and> map fst (fst s') = map fst (fst s)"
proof (induction as arbitrary: s)
  case (Cons a as)
  from Cons.prems(2) obtain s1 where s1: "tighten_strip_letter G prefix a s = Inr s1"
    and r: "tighten_strip G prefix as s1 = Inr s'"
    by (auto split: sum.splits)
  from tighten_strip_letter_consistent[OF inv nf Cons.prems(1) pr s1]
  have "dict_consistent G (fst s1)" "map fst (fst s1) = map fst (fst s)" by simp_all
  with Cons.IH[OF _ r] show ?case by simp
qed simp

lemma tighten_prefix_reduced:
  assumes em: "\<forall>a u. map_of em a = Some u \<longrightarrow> is_reduced i u"
  shows "\<forall>v p. prefix v = Some p \<longrightarrow> is_reduced i p \<Longrightarrow> tighten_prefix G em as prefix = Inr prefix'
    \<Longrightarrow> \<forall>v p. prefix' v = Some p \<longrightarrow> is_reduced i p"
proof (induction as arbitrary: prefix)
  case (Cons a as)
  from Cons.prems(2) obtain u where u: "map_of em a = Some u" by (auto split: option.splits)
  with em have ru: "is_reduced i u" by blast
  let ?v = "initial_vertex G a"
  show ?case
  proof (cases "u = []")
    case True
    with Cons u show ?thesis by (simp add: Let_def)
  next
    case ne: False
    show ?thesis
    proof (cases "prefix ?v")
      case None
      with Cons.prems u ne have r: "tighten_prefix G em as (prefix(?v \<mapsto> u)) = Inr prefix'"
        by (simp add: Let_def)
      have "\<forall>v p. (prefix(?v \<mapsto> u)) v = Some p \<longrightarrow> is_reduced i p"
        using Cons.prems(1) ru by auto
      from Cons.IH[OF this r] show ?thesis .
    next
      case (Some pv)
      show ?thesis
      proof (cases "pv = []")
        case True
        with Cons.prems u ne Some have r: "tighten_prefix G em as prefix = Inr prefix'"
          by (simp add: Let_def)
        from Cons.IH[OF Cons.prems(1) r] show ?thesis .
      next
        case False
        with Cons.prems u ne Some have
          r: "tighten_prefix G em as (prefix(?v \<mapsto> take (common_prefix_length u pv) pv)) = Inr prefix'"
          by (simp add: Let_def)
        from Cons.prems(1) Some have "is_reduced i pv" by blast
        then have "\<forall>v p. (prefix(?v \<mapsto> take (common_prefix_length u pv) pv)) v = Some p \<longrightarrow> is_reduced i p"
          using Cons.prems(1) by (auto simp: is_reduced_take)
        from Cons.IH[OF this r] show ?thesis .
      qed
    qed
  qed
qed simp

lemma tighten_iteration_consistent:
  assumes inv: "involution (inverse_of (alphabet G))" and nf: "\<forall>x. inverse_of (alphabet G) x \<noteq> x"
    and J: "dict_consistent G em" and it: "tighten_iteration G A em = Inr s"
  shows "dict_consistent G (fst s) \<and> map fst (fst s) = map fst em"
proof -
  from it obtain prefix where p: "tighten_prefix G em A Map.empty = Inr prefix"
    and s: "tighten_strip G prefix A (em, True) = Inr s"
    by (auto simp: tighten_iteration_def split: sum.splits)
  have "\<forall>a u. map_of em a = Some u \<longrightarrow> is_reduced (inverse_of (alphabet G)) u"
  proof (intro allI impI)
    fix a u assume u: "map_of em a = Some u"
    then have "a \<in> fst ` set em" by (metis domI dom_map_of_conv_image_fst)
    with J u show "is_reduced (inverse_of (alphabet G)) u" by (auto simp: dict_consistent_def)
  qed
  from tighten_prefix_reduced[OF this _ p]
  have "\<forall>v p. prefix v = Some p \<longrightarrow> is_reduced (inverse_of (alphabet G)) p" by simp
  from tighten_strip_consistent[OF inv nf this _ s] J show ?thesis by simp
qed

lemma tighten_strip_letter_done:
  "tighten_strip_letter G prefix a s = Inr s' \<Longrightarrow> snd s' \<Longrightarrow>
     s' = s \<and> (prefix (initial_vertex G a) = None \<or> prefix (initial_vertex G a) = Some [])"
  by (auto simp: tighten_strip_letter_def Let_def split: option.splits if_splits)

lemma tighten_strip_letter_not_done:
  "tighten_strip_letter G prefix a s = Inr s' \<Longrightarrow> \<not> snd s \<Longrightarrow> \<not> snd s'"
  by (auto simp: tighten_strip_letter_def Let_def split: option.splits if_splits)

lemma tighten_strip_not_done:
  "tighten_strip G prefix as s = Inr s' \<Longrightarrow> \<not> snd s \<Longrightarrow> \<not> snd s'"
proof (induction as arbitrary: s)
  case (Cons a as)
  from Cons.prems(1) obtain s1 where s1: "tighten_strip_letter G prefix a s = Inr s1"
    and r: "tighten_strip G prefix as s1 = Inr s'"
    by (auto split: sum.splits)
  from tighten_strip_letter_not_done[OF s1 Cons.prems(2)] Cons.IH[OF r] show ?case by blast
qed simp

lemma tighten_strip_done:
  "tighten_strip G prefix as s = Inr s' \<Longrightarrow> snd s' \<Longrightarrow>
     s' = s \<and> (\<forall>a \<in> set as. prefix (initial_vertex G a) = None \<or> prefix (initial_vertex G a) = Some [])"
proof (induction as arbitrary: s)
  case (Cons a as)
  from Cons.prems(1) obtain s1 where s1: "tighten_strip_letter G prefix a s = Inr s1"
    and r: "tighten_strip G prefix as s1 = Inr s'"
    by (auto split: sum.splits)
  from Cons.IH[OF r Cons.prems(2)] have 1: "s' = s1"
    and 2: "\<forall>a \<in> set as. prefix (initial_vertex G a) = None \<or> prefix (initial_vertex G a) = Some []"
    by simp_all
  from 1 Cons.prems(2) have "snd s1" by simp
  from tighten_strip_letter_done[OF s1 this] 1 2 show ?case by simp
qed simp

lemma tighten_loop_result:
  assumes inv: "involution (inverse_of (alphabet G))" and nf: "\<forall>x. inverse_of (alphabet G) x \<noteq> x"
    and ret: "tighten_loop G A em = Some (Inr em')"
  shows "dict_consistent G em \<longrightarrow>
           dict_consistent G em' \<and> map fst em' = map fst em \<and> tighten_iteration G A em' = Inr (em', True)"
proof -
  have "\<forall>em'. r = Inr em' \<longrightarrow> G0 = G \<longrightarrow> dict_consistent G em \<longrightarrow>
           dict_consistent G em' \<and> map fst em' = map fst em \<and> tighten_iteration G A em' = Inr (em', True)"
    if "tighten_loop G0 A em = Some r" for r G0
  proof (rule tighten_loop.raw_induct[where P = "\<lambda>G0 A em r. \<forall>em'. r = Inr em' \<longrightarrow> G0 = G \<longrightarrow> dict_consistent G em \<longrightarrow>
           dict_consistent G em' \<and> map fst em' = map fst em \<and> tighten_iteration G A em' = Inr (em', True)", OF _ that],
      intro allI impI)
    fix f G0 A em r em'
    assume IH: "\<And>G0 A em r. f G0 A em = Some r \<Longrightarrow> \<forall>em'. r = Inr em' \<longrightarrow> G0 = G \<longrightarrow> dict_consistent G em \<longrightarrow>
           dict_consistent G em' \<and> map fst em' = map fst em \<and> tighten_iteration G A em' = Inr (em', True)"
      and eq: "(case tighten_iteration G0 A em of Inl err \<Rightarrow> Some (Inl err)
               | Inr s \<Rightarrow> if snd s then Some (Inr (fst s)) else f G0 A (fst s)) = Some r"
      and r: "r = Inr em'" and G0: "G0 = G" and J: "dict_consistent G em"
    from eq r obtain s where s: "tighten_iteration G0 A em = Inr s" by (auto split: sum.splits)
    from tighten_iteration_consistent[OF inv nf J s[unfolded G0]]
    have Js: "dict_consistent G (fst s)" and ks: "map fst (fst s) = map fst em" by simp_all
    show "dict_consistent G em' \<and> map fst em' = map fst em \<and> tighten_iteration G A em' = Inr (em', True)"
    proof (cases "snd s")
      case True
      with eq s r have e: "em' = fst s" by simp
      from s obtain prefix where "tighten_strip G prefix A (em, True) = Inr s"
        by (auto simp: tighten_iteration_def G0 split: sum.splits)
      from tighten_strip_done[OF this True] have "s = (em, True)" by simp
      with e s Js ks G0 show ?thesis by simp
    next
      case False
      with eq s have "f G0 A (fst s) = Some r" by simp
      from IH[OF this] r G0 Js ks show ?thesis by simp
    qed
  qed
  from this[OF ret] show ?thesis by simp
qed

lemma map_of_distinct_eq:
  "map fst xs = map fst ys \<Longrightarrow> distinct (map fst xs)
   \<Longrightarrow> \<forall>k \<in> set (map fst xs). map_of xs k = map_of ys k \<Longrightarrow> xs = ys"
proof (induction xs arbitrary: ys)
  case Nil
  then show ?case by simp
next
  case (Cons x xs)
  from Cons.prems(1) obtain y ys' where ys: "ys = y # ys'" "fst x = fst y" "map fst xs = map fst ys'"
    by (cases ys) auto
  from Cons.prems(3) ys have "snd x = snd y" by (cases x, cases y) auto
  with ys have xy: "x = y" by (simp add: prod_eq_iff)
  have "\<forall>k \<in> set (map fst xs). map_of xs k = map_of ys' k"
  proof
    fix k assume k: "k \<in> set (map fst xs)"
    have "fst x \<notin> set (map fst xs)" using Cons.prems(2) by simp
    with k have "k \<noteq> fst x" by blast
    with Cons.prems(3) k ys xy show "map_of xs k = map_of ys' k"
      by (cases y) (auto split: if_splits)
  qed
  from Cons.IH[OF ys(3) _ this] Cons.prems(2) xy ys show ?case by simp
qed

lemma image_dict_same_keys:
  "image_dict g as d1 = Inr e1 \<Longrightarrow> image_dict h as d2 = Inr e2 \<Longrightarrow> map fst d1 = map fst d2
   \<Longrightarrow> map fst e1 = map fst e2"
proof (induction as arbitrary: d1 d2)
  case (Cons a as)
  from Cons.prems obtain w1 w2 where
    1: "image_dict g as (AList.update a w1 d1) = Inr e1" and 2: "image_dict h as (AList.update a w2 d2) = Inr e2"
    by (auto split: sum.splits)
  from Cons.prems(3) have "map fst (AList.update a w1 d1) = map fst (AList.update a w2 d2)"
    by (simp add: AList.update_keys)
  from Cons.IH[OF 1 2 this] show ?case .
qed simp

lemma image_dict_lookup:
  "image_dict g as d1 = Inr e1 \<Longrightarrow> a \<in> set as \<Longrightarrow> g a = Inr w \<Longrightarrow> map_of e1 a = Some w"
proof (induction as arbitrary: d1)
  case (Cons b as)
  from Cons.prems(1) obtain wb where wb: "g b = Inr wb"
    and r: "image_dict g as (AList.update b wb d1) = Inr e1"
    by (auto split: sum.splits)
  show ?case
  proof (cases "a \<in> set as")
    case True
    from Cons.IH[OF r True Cons.prems(3)] show ?thesis .
  next
    case False
    with Cons.prems(2) have "a = b" by simp
    with wb Cons.prems(3) have "map_of (AList.update b wb d1) a = Some w"
      by (simp add: AList.update_conv')
    with image_dict_map_of[OF r False] show ?thesis by simp
  qed
qed simp

lemma fold_step_agrees:
  assumes same: "same_inverse gm"
    and J: "dict_consistent (domain gm) em"
  shows "set xs \<subseteq> set em \<Longrightarrow> m \<subseteq>\<^sub>m map_of em \<Longrightarrow> fold (set_edge_map_step gm) xs m \<subseteq>\<^sub>m map_of em"
proof (induction xs arbitrary: m)
  case (Cons kw xs)
  let ?i = "inverse_of (alphabet (domain gm))"
  from Cons.prems(1) have mem: "kw \<in> set em" by simp
  with J have k: "map_of em (fst kw) = Some (snd kw)"
    by (simp add: dict_consistent_def)
  from mem have "fst kw \<in> fst ` set em" by (rule imageI)
  with J obtain u where "map_of em (fst kw) = Some u" "is_reduced ?i u"
    "map_of em (?i (fst kw)) = Some (reverse_path (domain gm) u)"
    unfolding dict_consistent_def by blast
  with k have red: "is_reduced ?i (snd kw)"
    and ik: "map_of em (?i (fst kw)) = Some (reverse_path (domain gm) (snd kw))"
    by simp_all
  from same have rr: "reverse_path (codomain gm) = reverse_path (domain gm)"
    by (auto simp: same_inverse_def reverse_path_def)
  from red same have "reduce_path (codomain gm) (snd kw) = snd kw"
    by (simp add: same_inverse_def reduce_path_reduced)
  then have "set_edge_map_step gm kw m
      = (m(fst kw \<mapsto> snd kw))(?i (fst kw) \<mapsto> reverse_path (domain gm) (snd kw))"
    by (simp add: set_edge_map_step_def Let_def rr)
  moreover have "(m(fst kw \<mapsto> snd kw))(?i (fst kw) \<mapsto> reverse_path (domain gm) (snd kw)) \<subseteq>\<^sub>m map_of em"
    using Cons.prems(2) k ik by (auto simp: map_le_def)
  ultimately have "set_edge_map_step gm kw m \<subseteq>\<^sub>m map_of em" by simp
  from Cons.IH[OF _ this] Cons.prems(1) show ?case by simp
qed simp

lemma set_edge_map_consistent_dict:
  assumes same: "same_inverse gm" and J: "dict_consistent (domain gm) em"
  shows "edge_map (store_edge_map gm em) = map_of em"
proof -
  let ?m = "fold (set_edge_map_step gm) (WordMorphism em) Map.empty"
  have le: "?m \<subseteq>\<^sub>m map_of em"
    by (rule fold_step_agrees[OF same J]) (simp_all add: WordMorphism_subset)
  have "dom (map_of em) \<subseteq> dom ?m"
    unfolding dom_fold_step WordMorphism_fst by (auto simp: dom_map_of_conv_image_fst)
  then have "map_of em \<subseteq>\<^sub>m ?m"
    unfolding map_le_def
  proof (intro ballI)
    fix a assume a: "a \<in> dom (map_of em)"
    assume "dom (map_of em) \<subseteq> dom ?m"
    with a have "a \<in> dom ?m" by blast
    with le show "map_of em a = ?m a" by (simp add: map_le_def)
  qed
  with le have "?m = map_of em" by (rule map_le_antisym)
  then show ?thesis by (simp add: store_edge_map_def)
qed

lemma tighten_prefix_keeps_first:
  assumes all: "\<forall>a \<in> set as. initial_vertex G a = v \<longrightarrow> (\<forall>y u. map_of em a = Some (y # u) \<longrightarrow> y = x)"
  shows "\<exists>p. prefix v = Some (x # p) \<Longrightarrow> tighten_prefix G em as prefix = Inr prefix'
    \<Longrightarrow> \<exists>p. prefix' v = Some (x # p)"
  using all
proof (induction as arbitrary: prefix)
  case (Cons a as)
  from Cons.prems(2) obtain u where u: "map_of em a = Some u" by (auto split: option.splits)
  from Cons.prems(1) obtain p where p: "prefix v = Some (x # p)" by blast
  from Cons.prems(3) have rest: "\<forall>a \<in> set as. initial_vertex G a = v \<longrightarrow> (\<forall>y u. map_of em a = Some (y # u) \<longrightarrow> y = x)"
    by simp
  obtain prefix1 where r: "tighten_prefix G em as prefix1 = Inr prefix'"
    and p1: "\<exists>p. prefix1 v = Some (x # p)"
  proof (cases "u = [] \<or> (\<exists>pv. prefix (initial_vertex G a) = Some pv \<and> pv = [])")
    case True
    with Cons.prems(2) u have "tighten_prefix G em as prefix = Inr prefix'"
      by (auto simp: Let_def split: option.splits if_splits)
    with p that show ?thesis by blast
  next
    case False
    then obtain y u' where yu: "u = y # u'" by (cases u) auto
    show ?thesis
    proof (cases "initial_vertex G a = v")
      case True
      with Cons.prems(3) u yu have yx: "y = x" by simp
      from Cons.prems(2) u yu True p yx
      have "tighten_prefix G em as (prefix(v \<mapsto> take (common_prefix_length (x # u') (x # p)) (x # p))) = Inr prefix'"
        by (simp add: Let_def)
      moreover have "\<exists>q. (prefix(v \<mapsto> take (common_prefix_length (x # u') (x # p)) (x # p))) v = Some (x # q)"
        by simp
      ultimately show ?thesis using that by blast
    next
      case nv: False
      from Cons.prems(2) u yu False obtain q where
        "tighten_prefix G em as (prefix(initial_vertex G a \<mapsto> q)) = Inr prefix'"
        by (auto simp: Let_def split: option.splits)
      moreover have "\<exists>p. (prefix(initial_vertex G a \<mapsto> q)) v = Some (x # p)"
        using nv p by simp
      ultimately show ?thesis using that by blast
    qed
  qed
  from Cons.IH[OF p1 r rest] show ?case .
qed simp

lemma tighten_prefix_finds_first:
  assumes all: "\<forall>a \<in> set as. initial_vertex G a = v \<longrightarrow> (\<forall>y u. map_of em a = Some (y # u) \<longrightarrow> y = x)"
    and ex: "\<exists>a \<in> set as. initial_vertex G a = v \<and> (\<exists>u. map_of em a = Some (x # u))"
  shows "prefix v = None \<or> (\<exists>p. prefix v = Some (x # p)) \<Longrightarrow> tighten_prefix G em as prefix = Inr prefix'
    \<Longrightarrow> \<exists>p. prefix' v = Some (x # p)"
  using all ex
proof (induction as arbitrary: prefix)
  case (Cons a as)
  from Cons.prems(2) obtain u where u: "map_of em a = Some u" by (auto split: option.splits)
  from Cons.prems(3) have rest: "\<forall>a \<in> set as. initial_vertex G a = v \<longrightarrow> (\<forall>y u. map_of em a = Some (y # u) \<longrightarrow> y = x)"
    by simp
  show ?case
  proof (cases "initial_vertex G a = v \<and> u \<noteq> []")
    case True
    then obtain y u' where yu: "u = y # u'" by (cases u) auto
    with Cons.prems(3) u True have yx: "y = x" by simp
    from Cons.prems(1) Cons.prems(2) u yu yx True obtain q where
      r: "tighten_prefix G em as (prefix(v \<mapsto> x # q)) = Inr prefix'"
      by (auto simp: Let_def split: option.splits)
    have "\<exists>p. (prefix(v \<mapsto> x # q)) v = Some (x # p)" by simp
    from tighten_prefix_keeps_first[OF rest this r] show ?thesis .
  next
    case False
    with Cons.prems(4) u have ex': "\<exists>a \<in> set as. initial_vertex G a = v \<and> (\<exists>u. map_of em a = Some (x # u))"
      by auto
    from False Cons.prems(2) u obtain prefix1 where
      r: "tighten_prefix G em as prefix1 = Inr prefix'" and same: "prefix1 v = prefix v"
      by (cases "u = []") (auto simp: Let_def split: option.splits if_splits)
    from Cons.IH[OF _ r rest ex'] same Cons.prems(1) show ?thesis by simp
  qed
qed simp

lemma letters_closed:
  assumes "involution (inverse_of A)" "a \<in> set (letters A)"
  shows "inverse_of A a \<in> set (letters A)"
proof -
  from assms(2) consider "a \<in> set (positive_letters A)"
    | p where "p \<in> set (positive_letters A)" "a = inverse_of A p"
    by (auto simp: letters_def)
  then show ?thesis
  proof cases
    case 1
    then show ?thesis by (simp add: letters_def)
  next
    case 2
    with assms(1) have "inverse_of A a = p" by (simp add: involution_def)
    with 2 show ?thesis by (simp add: letters_def)
  qed
qed

lemma image_dict_consistent:
  assumes ok: "inverses_ok (domain gm) (codomain gm)" and same: "same_inverse gm"
    and ic: "inverse_consistent gm"
    and e0: "image_dict (image_letter gm) (letters (alphabet (domain gm))) [] = Inr em0"
  shows "dict_consistent (domain gm) em0"
  unfolding dict_consistent_def
proof (intro conjI ballI)
  let ?A = "letters (alphabet (domain gm))"
  let ?i = "inverse_of (alphabet (domain gm))"
  from ok have inv: "involution ?i" by (simp add: inverses_ok_def)
  show "distinct (map fst em0)" using image_dict_distinct[OF e0] by simp
  fix a assume "a \<in> fst ` set em0"
  with image_dict_keys[OF e0] have a: "a \<in> set ?A" by simp
  from letters_closed[OF inv a] have ia: "?i a \<in> set ?A" .
  from ic a obtain u where u: "edge_map gm a = Some u"
    by (auto simp: inverse_consistent_def total_on_alphabet_def)
  with ic have r: "is_reduced (inverse_of (alphabet (codomain gm))) u"
    and iu: "edge_map gm (?i a) = Some (reverse_path (codomain gm) u)"
    by (simp_all add: inverse_consistent_def stored_consistent_def)
  from same have rr: "reverse_path (codomain gm) = reverse_path (domain gm)"
    by (auto simp: same_inverse_def reverse_path_def)
  from u have "image_letter gm a = Inr u" by (simp add: image_letter_def)
  from image_dict_lookup[OF e0 a this] have 1: "map_of em0 a = Some u" .
  from iu have "image_letter gm (?i a) = Inr (reverse_path (domain gm) u)" by (simp add: image_letter_def rr)
  from image_dict_lookup[OF e0 ia this] have 2: "map_of em0 (?i a) = Some (reverse_path (domain gm) u)" .
  from r same have 3: "is_reduced ?i u" by (simp add: same_inverse_def)
  from 1 2 3 show "\<exists>u. map_of em0 a = Some u \<and> is_reduced ?i u \<and> map_of em0 (?i a) = Some (reverse_path (domain gm) u)"
    by blast
qed

text \<open>
  C4. Let \<open>tighten\<close> return on a graph map that satisfies the inverse-consistency
  invariant, with the same inverse of a letter in domain and codomain. Then in the map it
  returns no vertex has a nonempty common prefix of the nonempty images of its outgoing
  letters, and \<open>tighten\<close> applied to that map returns it unchanged.
\<close>

theorem tighten_idempotent:
  assumes ok: "inverses_ok (domain gm) (codomain gm)" and same: "same_inverse gm"
    and ic: "inverse_consistent gm" and ret: "tighten gm = Some (Inr gm')"
  shows "(\<forall>v x. \<not> common_first gm' v x) \<and> tighten gm' = Some (Inr gm')"
proof -
  let ?G = "domain gm"
  let ?A = "letters (alphabet ?G)"
  let ?i = "inverse_of (alphabet ?G)"
  from ok have inv: "involution ?i" and nf: "\<forall>x. ?i x \<noteq> x" by (simp_all add: inverses_ok_def)
  from ret obtain em0 em' where e0: "image_dict (image_letter gm) ?A [] = Inr em0"
    and loop: "tighten_loop ?G ?A em0 = Some (Inr em')"
    and se: "set_edge_map gm em' = Inr gm'"
    by (auto simp: tighten_def Let_def split: sum.splits option.splits)
  from se have gm': "gm' = store_edge_map gm em'" by (rule set_edge_map_Inr)
  have J0: "dict_consistent ?G em0" by (rule image_dict_consistent[OF ok same ic e0])
  from tighten_loop_result[OF inv nf loop] J0
  have J: "dict_consistent ?G em'" and keys: "map fst em' = map fst em0"
    and stable: "tighten_iteration ?G ?A em' = Inr (em', True)" by simp_all
  have E: "edge_map gm' = map_of em'"
    unfolding gm' by (rule set_edge_map_consistent_dict[OF same J])
  have d: "domain gm' = ?G" "codomain gm' = codomain gm" by (simp_all add: gm' store_edge_map_def)
  have kA: "set (map fst em') = set ?A" using image_dict_keys[OF e0] keys by simp
  \<comment> \<open>no common first letter is left\<close>
  from stable obtain prefix where p: "tighten_prefix ?G em' ?A Map.empty = Inr prefix"
    and s: "tighten_strip ?G prefix ?A (em', True) = Inr (em', True)"
    by (auto simp: tighten_iteration_def split: sum.splits)
  from tighten_strip_done[OF s] have none:
    "\<forall>a \<in> set ?A. prefix (initial_vertex ?G a) = None \<or> prefix (initial_vertex ?G a) = Some []"
    by simp
  have nc: "\<not> common_first gm' v x" for v x
  proof
    assume c: "common_first gm' v x"
    then obtain a where a: "a \<in> set ?A" "initial_vertex ?G a = v"
      unfolding common_first_def d by blast
    from c have all: "\<forall>a \<in> set ?A. initial_vertex ?G a = v \<longrightarrow> (\<forall>y u. map_of em' a = Some (y # u) \<longrightarrow> y = x)"
      and ex: "\<exists>a \<in> set ?A. initial_vertex ?G a = v \<and> (\<exists>u. map_of em' a = Some (x # u))"
      unfolding common_first_def d E by blast+
    from tighten_prefix_finds_first[OF all ex _ p] obtain q where "prefix v = Some (x # q)" by auto
    with none a show False by auto
  qed
  \<comment> \<open>the second run\<close>
  have img: "image_letter gm' a = Inr (the (map_of em' a))" if "a \<in> set ?A" for a
  proof -
    from that kA have "a \<in> fst ` set em'" by simp
    then obtain w where "map_of em' a = Some w"
      using J unfolding dict_consistent_def by blast
    then show ?thesis by (simp add: image_letter_def E)
  qed
  then have "\<forall>a \<in> set ?A. \<not> isl (image_letter gm' a)" by simp
  from image_dict_total[OF this] obtain em2 where e2: "image_dict (image_letter gm') ?A [] = Inr em2" by blast
  have k2: "map fst em2 = map fst em'"
    using image_dict_same_keys[OF e2 e0] keys by simp
  have "em2 = em'"
  proof (rule map_of_distinct_eq[OF k2])
    show "distinct (map fst em2)" using image_dict_distinct[OF e2] by simp
    show "\<forall>k \<in> set (map fst em2). map_of em2 k = map_of em' k"
    proof
      fix k assume "k \<in> set (map fst em2)"
      with k2 kA have k: "k \<in> set ?A" by simp
      from k kA have "k \<in> fst ` set em'" by simp
      then obtain w where w: "map_of em' k = Some w"
        using J unfolding dict_consistent_def by blast
      with img[OF k] have "image_letter gm' k = Inr w" by simp
      from image_dict_lookup[OF e2 k this] w show "map_of em2 k = map_of em' k" by simp
    qed
  qed
  with e2 have e2': "image_dict (image_letter gm') ?A [] = Inr em'" by simp
  have l2: "tighten_loop ?G ?A em' = Some (Inr em')"
    by (subst tighten_loop.simps) (simp add: stable)
  have "set_edge_map_step gm' = set_edge_map_step gm"
    by (intro ext) (simp add: set_edge_map_step_def d)
  then have "store_edge_map gm' em' = gm'"
    by (simp add: store_edge_map_def gm')
  moreover have "fst ` set em' \<subseteq> set ?A" using kA by simp
  ultimately have "set_edge_map gm' em' = Inr gm'"
    by (simp add: set_edge_map_eq d)
  then have "tighten gm' = Some (Inr gm')"
    by (simp add: tighten_def Let_def d e2' l2)
  with nc show ?thesis by blast
qed

lemma conj_ok: "inverses_ok (domain conj_map) (codomain conj_map)" "same_inverse conj_map"
  "inverse_consistent conj_map"
proof -
  show "inverses_ok (domain conj_map) (codomain conj_map)" by (simp add: conj1 inverses_ok_rose2)
  show "same_inverse conj_map" by (simp add: same_inverse_def conj1)
  have "covers rose2 [(Pos CHR ''a'', [Pos CHR ''b'', Pos CHR ''a'', Neg CHR ''b'']),
      (Pos CHR ''b'', [Pos CHR ''b'', Pos CHR ''a'', Pos CHR ''a'', Neg CHR ''b''])]"
    by (simp add: covers_def positive_rose2)
  from GraphMap_consistent[OF inverses_ok_rose2 this conj_map_built]
  show "inverse_consistent conj_map" .
qed

theorem tighten_idempotent_witness:
  "inverses_ok (domain conj_map) (codomain conj_map) \<and> same_inverse conj_map
   \<and> inverse_consistent conj_map
   \<and> edge_map conj_map (Pos CHR ''a'') = Some [Pos CHR ''b'', Pos CHR ''a'', Neg CHR ''b'']
   \<and> (\<exists>gm'. tighten conj_map = Some (Inr gm')
        \<and> edge_map gm' (Pos CHR ''a'') = Some [Pos CHR ''a'']
        \<and> edge_map gm' (Pos CHR ''b'') = Some [Pos CHR ''a'', Pos CHR ''a'']
        \<and> (\<forall>v x. \<not> common_first gm' v x) \<and> tighten gm' = Some (Inr gm'))"
proof -
  from tighten_idempotent[OF conj_ok conj_tighten] conj_ok conj_tighten conj_images
  show ?thesis by simp
qed

subsection \<open>C3: the loop of tighten\<close>

text \<open>What one turn of the loop does to the total length of the images: where the letters
  are distinct and every image is at least as long as the prefix of its initial vertex and
  the prefix of its terminal vertex together, a turn that marks "not done" strictly
  decreases it.\<close>

lemma total_length_update:
  "distinct (map fst em) \<Longrightarrow> map_of em k = Some w
   \<Longrightarrow> total_length (AList.update k v em) + length w = total_length em + length v"
proof (induction em)
  case (Cons x em)
  show ?case
  proof (cases "fst x = k")
    case True
    with Cons.prems show ?thesis by (cases x) (simp add: total_length_def)
  next
    case False
    with Cons.prems have "map_of em k = Some w" "distinct (map fst em)" by (cases x, auto)+
    from Cons.IH[OF this(2) this(1)] False show ?thesis by (cases x) (simp add: total_length_def)
  qed
qed simp

lemma tighten_strip_letter_strips:
  assumes step: "tighten_strip_letter G prefix a s = Inr s'"
    and pv: "prefix (initial_vertex G a) = Some pv" "pv \<noteq> []"
    and w: "map_of (fst s) a = Some w" "w \<noteq> []"
    and nf: "inverse_of (alphabet G) a \<noteq> a"
  shows "\<exists>w'. map_of (fst s) (inverse_of (alphabet G) a) = Some w'
      \<and> s' = (AList.update (inverse_of (alphabet G) a) (take (length w' - length pv) w')
                 (AList.update a (drop (length pv) w) (fst s)), False)"
  using step pv w nf
  by (auto simp: tighten_strip_letter_def Let_def AList.update_conv' split: option.splits)

lemma tighten_strip_letter_skips:
  assumes step: "tighten_strip_letter G prefix a s = Inr s'"
    and pv: "prefix_length prefix (initial_vertex G a) = 0"
  shows "s' = s"
  using step pv
  by (auto simp: tighten_strip_letter_def prefix_length_def split: option.splits if_splits)

lemma tighten_strip_decreases:
  fixes L :: "'l \<Rightarrow> nat"
  assumes inv: "involution (inverse_of (alphabet G))" and nf: "\<forall>x. inverse_of (alphabet G) x \<noteq> x"
  shows "distinct as \<Longrightarrow> set as \<inter> D = {} \<Longrightarrow> distinct (map fst cur)
    \<Longrightarrow> \<forall>b \<in> fst ` set cur. prefix_length prefix (initial_vertex G b)
            + prefix_length prefix (initial_vertex G (inverse_of (alphabet G) b)) \<le> L b
    \<Longrightarrow> \<forall>b \<in> fst ` set cur. \<exists>w. map_of cur b = Some w \<and> L b \<le> length w + stripped G prefix D b
    \<Longrightarrow> tighten_strip G prefix as (cur, d) = Inr (cur', d')
    \<Longrightarrow> total_length cur' \<le> total_length cur \<and> (d \<longrightarrow> \<not> d' \<longrightarrow> total_length cur' < total_length cur)"
proof (induction as arbitrary: cur d D)
  case Nil
  then show ?case by simp
next
  case (Cons a as)
  let ?i = "inverse_of (alphabet G)"
  let ?pl = "\<lambda>b. prefix_length prefix (initial_vertex G b)"
  have ii: "\<And>x. ?i (?i x) = x" using inv by (simp add: involution_def)
  have ia: "?i a \<noteq> a" using nf by blast
  from Cons.prems(1) have das: "distinct as" and a_as: "a \<notin> set as" by simp_all
  from Cons.prems(2) have aD: "a \<notin> D" and asD: "set as \<inter> insert a D = {}" using a_as by auto
  from Cons.prems(6) obtain s1 where s1: "tighten_strip_letter G prefix a (cur, d) = Inr s1"
    and rest: "tighten_strip G prefix as s1 = Inr (cur', d')"
    by (auto split: sum.splits)
  show ?case
  proof (cases "?pl a = 0")
    case True
    from tighten_strip_letter_skips[OF s1 True] have s1': "s1 = (cur, d)" .
    have "\<forall>b \<in> fst ` set cur. \<exists>w. map_of cur b = Some w \<and> L b \<le> length w + stripped G prefix (insert a D) b"
    proof
      fix b assume "b \<in> fst ` set cur"
      with Cons.prems(5) obtain w where w: "map_of cur b = Some w" "L b \<le> length w + stripped G prefix D b"
        by blast
      have "stripped G prefix D b \<le> stripped G prefix (insert a D) b"
        by (auto simp: stripped_def)
      with w show "\<exists>w. map_of cur b = Some w \<and> L b \<le> length w + stripped G prefix (insert a D) b"
        by (intro exI[where x = w]) simp
    qed
    from Cons.IH[OF das asD Cons.prems(3) Cons.prems(4) this rest[unfolded s1']] show ?thesis .
  next
    case False
    then obtain pv where pv: "prefix (initial_vertex G a) = Some pv" "pv \<noteq> []"
      and k: "?pl a = length pv"
      by (auto simp: prefix_length_def split: option.splits)
    from s1 pv obtain w where w: "map_of cur a = Some w"
      by (auto simp: tighten_strip_letter_def Let_def split: option.splits)
    then have aK: "a \<in> fst ` set cur" by (metis domI dom_map_of_conv_image_fst)
    from Cons.prems(5) aK w have "L a \<le> length w + stripped G prefix D a" by fastforce
    moreover have "stripped G prefix D a \<le> ?pl (?i a)" using aD by (simp add: stripped_def)
    moreover from Cons.prems(4) aK have "?pl a + ?pl (?i a) \<le> L a" by blast
    ultimately have kw: "length pv \<le> length w" using k by simp
    with pv have wne: "w \<noteq> []" by auto
    from tighten_strip_letter_strips[OF s1 pv _ wne ia] w obtain w' where
      w': "map_of cur (?i a) = Some w'"
      and s1': "s1 = (AList.update (?i a) (take (length w' - length pv) w')
                        (AList.update a (drop (length pv) w) cur), False)"
      by auto
    let ?c1 = "AList.update a (drop (length pv) w) cur"
    let ?c2 = "AList.update (?i a) (take (length w' - length pv) w') ?c1"
    have iaK: "?i a \<in> fst ` set cur" using w' by (metis domI dom_map_of_conv_image_fst)
    have d1: "distinct (map fst ?c1)" using Cons.prems(3) by (rule AList.distinct_update)
    have d2: "distinct (map fst ?c2)" using d1 by (rule AList.distinct_update)
    have m1: "map_of ?c1 (?i a) = Some w'" using w' ia by (simp add: AList.update_conv')
    have m2: "map_of ?c2 = (map_of cur)(a \<mapsto> drop (length pv) w, ?i a \<mapsto> take (length w' - length pv) w')"
      by (simp add: AList.update_conv')
    have k2: "fst ` set ?c2 = fst ` set cur" using aK iaK by (auto simp: AList.dom_update)
    have t1: "total_length ?c1 + length w = total_length cur + (length w - length pv)"
      using total_length_update[OF Cons.prems(3) w, of "drop (length pv) w"] by simp
    have t2: "total_length ?c2 + length w' = total_length ?c1 + (length w' - length pv)"
      using total_length_update[OF d1 m1, of "take (length w' - length pv) w'"] by simp
    from t1 t2 kw pv have less: "total_length ?c2 < total_length cur"
      by (cases pv) auto
    have room2: "\<forall>b \<in> fst ` set ?c2. ?pl b + ?pl (?i b) \<le> L b"
      using Cons.prems(4) unfolding k2 .
    have lb2: "\<forall>b \<in> fst ` set ?c2. \<exists>w. map_of ?c2 b = Some w \<and> L b \<le> length w + stripped G prefix (insert a D) b"
      unfolding k2
    proof
      fix b assume bK: "b \<in> fst ` set cur"
      with Cons.prems(5) obtain wb where wb: "map_of cur b = Some wb" "L b \<le> length wb + stripped G prefix D b"
        by blast
      show "\<exists>w. map_of ?c2 b = Some w \<and> L b \<le> length w + stripped G prefix (insert a D) b"
      proof (cases "b = a")
        case True
        with wb w have "L a \<le> length w + stripped G prefix D a" by simp
        moreover have "stripped G prefix (insert a D) a = length pv + stripped G prefix D a"
          using aD ia k by (simp add: stripped_def)
        ultimately have "L a \<le> length (drop (length pv) w) + stripped G prefix (insert a D) a"
          using kw by simp
        with True ia show ?thesis by (simp add: m2)
      next
        case ba: False
        show ?thesis
        proof (cases "b = ?i a")
          case True
          with wb w' have "L (?i a) \<le> length w' + stripped G prefix D (?i a)" by simp
          moreover have "stripped G prefix (insert a D) (?i a) = stripped G prefix D (?i a) + length pv"
            using aD ia ii k by (simp add: stripped_def)
          ultimately have "L (?i a) \<le> length (take (length w' - length pv) w') + stripped G prefix (insert a D) (?i a)"
            by simp
          with True show ?thesis by (simp add: m2)
        next
          case False
          then have "?i b \<noteq> a" using ii by metis
          with ba have "stripped G prefix (insert a D) b = stripped G prefix D b"
            by (simp add: stripped_def)
          with wb ba False show ?thesis by (simp add: m2)
        qed
      qed
    qed
    from Cons.IH[OF das asD d2 room2 lb2 rest[unfolded s1']]
    have "total_length cur' \<le> total_length ?c2" by simp
    with less show ?thesis by simp
  qed
qed

lemma tighten_iteration_decreases:
  assumes inv: "involution (inverse_of (alphabet G))" and nf: "\<forall>x. inverse_of (alphabet G) x \<noteq> x"
    and dA: "distinct A" and dk: "distinct (map fst em)"
    and room: "iteration_has_room G A em"
    and it: "tighten_iteration G A em = Inr (em', False)"
  shows "total_length em' < total_length em"
proof -
  from room obtain prefix where p: "tighten_prefix G em A Map.empty = Inr prefix"
    and r: "room_for_prefixes G prefix em"
    by (auto simp: iteration_has_room_def split: sum.splits)
  from it p have s: "tighten_strip G prefix A (em, True) = Inr (em', False)"
    by (simp add: tighten_iteration_def)
  have lb: "\<forall>b \<in> fst ` set em. \<exists>w. map_of em b = Some w
              \<and> length (the (map_of em b)) \<le> length w + stripped G prefix {} b"
  proof
    fix b assume "b \<in> fst ` set em"
    then obtain w where "map_of em b = Some w"
      by (metis domD dom_map_of_conv_image_fst)
    then show "\<exists>w. map_of em b = Some w \<and> length (the (map_of em b)) \<le> length w + stripped G prefix {} b"
      by simp
  qed
  from tighten_strip_decreases[OF inv nf dA _ dk r[unfolded room_for_prefixes_def] lb s]
  show ?thesis by simp
qed

lemma tighten_iteration_decreases_example:
  "involution (inverse_of (alphabet rose2)) \<and> (\<forall>x. inverse_of (alphabet rose2) x \<noteq> x)
   \<and> distinct (letters (alphabet rose2)) \<and> distinct (map fst conj_dict)
   \<and> iteration_has_room rose2 (letters (alphabet rose2)) conj_dict
   \<and> tighten_iteration rose2 (letters (alphabet rose2)) conj_dict = Inr (tight_dict, False)
   \<and> total_length conj_dict = 14 \<and> total_length tight_dict = 6
   \<and> total_length tight_dict < total_length conj_dict"
proof -
  have inv: "involution (inverse_of (alphabet rose2))"
    and nf: "\<forall>x. inverse_of (alphabet rose2) x \<noteq> x"
    using inverses_ok_rose2 by (simp_all add: inverses_ok_def)
  have h: "distinct (letters (alphabet rose2))" "distinct (map fst conj_dict)"
    "iteration_has_room rose2 (letters (alphabet rose2)) conj_dict"
    "total_length conj_dict = 14" "total_length tight_dict = 6"
    by code_simp+
  from tighten_iteration_decreases[OF inv nf h(1) h(2) h(3) conj_it1] inv nf h conj_it1
  show ?thesis by simp
qed

lemma bigon_it1: "tighten_iteration bigon (letters (alphabet bigon)) bigon_dict = Inr (bigon_dict', False)"
  by code_simp

lemma bigon_it2: "tighten_iteration bigon (letters (alphabet bigon)) bigon_dict' = Inr (bigon_dict, False)"
  by code_simp

lemma bigon_dict0: "image_dict (image_letter bigon_map) (letters (alphabet bigon)) [] = Inr bigon_dict"
  by code_simp

lemma bigon_loop_diverges: "tighten_loop bigon (letters (alphabet bigon)) bigon_dict = None"
proof (rule ccontr)
  assume "tighten_loop bigon (letters (alphabet bigon)) bigon_dict \<noteq> None"
  then obtain y where ret: "tighten_loop bigon (letters (alphabet bigon)) bigon_dict = Some y"
    by auto
  have "bigon = bigon \<and> letters (alphabet bigon) = letters (alphabet bigon)
        \<and> (bigon_dict = bigon_dict \<or> bigon_dict = bigon_dict') \<longrightarrow> False"
  proof (rule tighten_loop.raw_induct[where P = "\<lambda>G A em y. G = bigon \<and> A = letters (alphabet bigon)
        \<and> (em = bigon_dict \<or> em = bigon_dict') \<longrightarrow> False", OF _ ret], intro impI, elim conjE)
    fix f G A em y
    assume IH: "\<And>G A em y. f G A em = Some y \<Longrightarrow> G = bigon \<and> A = letters (alphabet bigon)
        \<and> (em = bigon_dict \<or> em = bigon_dict') \<longrightarrow> False"
      and eq: "(case tighten_iteration G A em of Inl err \<Rightarrow> Some (Inl err)
               | Inr s \<Rightarrow> if snd s then Some (Inr (fst s)) else f G A (fst s)) = Some y"
      and G: "G = bigon" and A: "A = letters (alphabet bigon)"
      and em: "em = bigon_dict \<or> em = bigon_dict'"
    from em show False
    proof
      assume "em = bigon_dict"
      with eq G A have "f bigon (letters (alphabet bigon)) bigon_dict' = Some y" by (simp add: bigon_it1)
      from IH[OF this] show False by simp
    next
      assume "em = bigon_dict'"
      with eq G A have "f bigon (letters (alphabet bigon)) bigon_dict = Some y" by (simp add: bigon_it2)
      from IH[OF this] show False by simp
    qed
  qed
  then show False by simp
qed

lemma bigon_tighten: "tighten bigon_map = None"
proof -
  have "domain bigon_map = bigon" using GraphMap_fields[OF bigon_map_built] by simp
  then show ?thesis by (simp add: tighten_def Let_def bigon_dict0 bigon_loop_diverges)
qed

text \<open>
  C3. The constructor returns the map of the two-edge graph that sends \<open>a\<close> to \<open>ab\<close> and
  collapses \<open>b\<close>, and the map satisfies the invariant. On it, the first turn of the loop of
  \<open>tighten\<close> marks "not done" and leaves the total length of the images at 4: the image
  of \<open>a\<close> is stripped at both ends and then set to the reverse of the prefix of its
  terminal vertex. The second turn marks "not done" again and gives the first dict back.
  The loop has period 2 and \<open>tighten\<close> never returns.
\<close>

theorem tighten_diverges:
  "GraphMap bigon rose2 [(Pos CHR ''a'', [Pos CHR ''a'', Pos CHR ''b'']), (Pos CHR ''b'', [])] None
     = Inr bigon_map
   \<and> inverse_consistent bigon_map
   \<and> image_dict (image_letter bigon_map) (letters (alphabet (domain bigon_map))) [] = Inr bigon_dict
   \<and> tighten_iteration (domain bigon_map) (letters (alphabet (domain bigon_map))) bigon_dict
        = Inr (bigon_dict', False)
   \<and> total_length bigon_dict = 4 \<and> total_length bigon_dict' = 4
   \<and> tighten_iteration (domain bigon_map) (letters (alphabet (domain bigon_map))) bigon_dict'
        = Inr (bigon_dict, False)
   \<and> tighten bigon_map = None"
proof -
  have d: "domain bigon_map = bigon" "codomain bigon_map = rose2"
    using GraphMap_fields[OF bigon_map_built] by simp_all
  have "inverses_ok bigon rose2"
    by (simp add: inverses_ok_def bigon_def rose2_def involution_formal_inverse formal_inverse_neq)
  moreover have "covers bigon [(Pos CHR ''a'', [Pos CHR ''a'', Pos CHR ''b'']), (Pos CHR ''b'', [])]"
    by (simp add: covers_def bigon_def)
  ultimately have "inverse_consistent bigon_map"
    using bigon_map_built by (rule GraphMap_consistent)
  moreover have "total_length bigon_dict = 4" "total_length bigon_dict' = 4"
    by (simp_all add: total_length_def bigon_dict_def bigon_dict'_def)
  ultimately show ?thesis
    by (simp add: d bigon_map_built bigon_dict0 bigon_it1 bigon_it2 bigon_tighten)
qed

subsection \<open>C7: a failing inversion\<close>

lemma inverse_failure:
  "inverse_automorphism spanning_tree gm = Inr aut \<Longrightarrow> invert (phi aut) = Inl e
   \<Longrightarrow> inverse_map spanning_tree invert gm = Inl e"
  by (simp add: inverse_map_def)

text \<open>
  C7, amended. \<open>inverse\<close> fails with the failure of the steps before the inversion when
  they fail, and otherwise with exactly the failure that the inversion of the automorphism
  reports: the failure is handed on as it is, neither masked nor replaced by another error.
\<close>

theorem inverse_propagates:
  "(\<forall>e. inverse_automorphism spanning_tree gm = Inl e \<longrightarrow> inverse_map spanning_tree invert gm = Inl e)
   \<and> (\<forall>aut e. inverse_automorphism spanning_tree gm = Inr aut \<longrightarrow> invert (phi aut) = Inl e
        \<longrightarrow> inverse_map spanning_tree invert gm = Inl e)"
  by (simp add: inverse_map_def)

lemma collapse_automorphism:
  "inverse_automorphism rose_tree collapse_map
     = Inr \<lparr>phi = [(Gen 0, []), (Gen 1, [Gen 1])],
            phi_translate = [(Gen 0, Pos CHR ''a''), (Gen_inv 0, Neg CHR ''a''),
                             (Gen 1, Pos CHR ''b''), (Gen_inv 1, Neg CHR ''b'')],
            phi_tree_edges = []\<rparr>"
  by code_simp

text \<open>
  C7, as stated, fails: for the map of the rose that collapses \<open>a\<close>, the automorphism sends
  the first generator to the empty word; when the inversion reports \<open>NotInvertible\<close>,
  \<open>inverse\<close> fails with \<open>NotInvertible\<close>, not with \<open>NotAHomotopyEquivalenceError\<close>.
\<close>

theorem inverse_counterexample:
  "inverse_map rose_tree (\<lambda>aut. Inl NotInvertible) collapse_map = Inl NotInvertible
   \<and> inverse_map rose_tree (\<lambda>aut. Inl NotInvertible) collapse_map \<noteq> Inl NotAHomotopyEquivalenceError"
  using inverse_failure[OF collapse_automorphism, of "\<lambda>aut. Inl NotInvertible" NotInvertible]
  by simp

theorem inverse_propagates_witness:
  "inverse_automorphism rose_tree collapse_map
     = Inr \<lparr>phi = [(Gen 0, []), (Gen 1, [Gen 1])],
            phi_translate = [(Gen 0, Pos CHR ''a''), (Gen_inv 0, Neg CHR ''a''),
                             (Gen 1, Pos CHR ''b''), (Gen_inv 1, Neg CHR ''b'')],
            phi_tree_edges = []\<rparr>
   \<and> inverse_map rose_tree (\<lambda>aut. Inl NotInvertible) collapse_map = Inl NotInvertible"
  using inverse_propagates[of rose_tree collapse_map "\<lambda>aut. Inl NotInvertible"] collapse_automorphism
  by simp

end
